theory Spec2Isabelle
  imports Complex_Main "HOL-Library.AList" "HOL-Library.Multiset" "HOL-Library.Sublist"
begin

section \<open>Python values used by the elevator simulation\<close>

text \<open>
  The simulation is written in Python. Integers are unbounded (\<open>int\<close>), \<open>%\<close> is the
  floor modulus (HOL's \<open>mod\<close> on \<open>int\<close>), lists are HOL lists, and a \<open>dict\<close> is an
  association list in insertion order with pairwise distinct keys. The built-ins that can
  raise return a value of \<open>py_error + 'a\<close>, with \<open>Inl\<close> for the exception.

  The classes are decorated with \<open>check_contracts\<close> of the external \<open>python_ta\<close>
  package. Its run-time checks are not part of the embedding: the preconditions written in
  the docstrings appear as hypotheses of the theorems that need them.
\<close>

datatype py_error = ValueError | KeyError | IndexError | ZeroDivisionError

type_synonym 'a result = "py_error + 'a"

definition bind_r :: "'a result \<Rightarrow> ('a \<Rightarrow> 'b result) \<Rightarrow> 'b result" where
  "bind_r m f = (case m of Inl e \<Rightarrow> Inl e | Inr x \<Rightarrow> f x)"

text \<open>A \<open>for\<close> loop whose body can raise: the first exception ends the loop.\<close>

fun fold_r :: "('a \<Rightarrow> 's \<Rightarrow> 's result) \<Rightarrow> 'a list \<Rightarrow> 's \<Rightarrow> 's result" where
  "fold_r f [] s = Inr s"
| "fold_r f (x # xs) s = bind_r (f x s) (fold_r f xs)"

text \<open>A loop that appends one computed element per iteration to a fresh list.\<close>

fun map_r :: "('a \<Rightarrow> 'b result) \<Rightarrow> 'a list \<Rightarrow> 'b list result" where
  "map_r f [] = Inr []"
| "map_r f (x # xs) = bind_r (f x) (\<lambda>y. bind_r (map_r f xs) (\<lambda>ys. Inr (y # ys)))"

text \<open>\<open>max(xs)\<close> and \<open>min(xs)\<close>: \<open>ValueError\<close> on the empty list.\<close>

fun py_max :: "int list \<Rightarrow> int result" where
  "py_max [] = Inl ValueError"
| "py_max (x # xs) = Inr (fold max xs x)"

fun py_min :: "int list \<Rightarrow> int result" where
  "py_min [] = Inl ValueError"
| "py_min (x # xs) = Inr (fold min xs x)"

text \<open>\<open>xs.index(x)\<close>: the first position holding \<open>x\<close>, \<open>ValueError\<close> when there is none.\<close>

fun py_index :: "'a list \<Rightarrow> 'a \<Rightarrow> nat result" where
  "py_index [] x = Inl ValueError"
| "py_index (y # ys) x =
     (if y = x then Inr 0 else bind_r (py_index ys x) (\<lambda>i. Inr (Suc i)))"

text \<open>\<open>xs[i]\<close> for an index that is not negative.\<close>

definition py_get :: "'a list \<Rightarrow> nat \<Rightarrow> 'a result" where
  "py_get xs i = (if i < length xs then Inr (xs ! i) else Inl IndexError)"

text \<open>\<open>xs.remove(x)\<close>: deletes the first occurrence, \<open>ValueError\<close> when there is none.\<close>

definition py_remove :: "'a \<Rightarrow> 'a list \<Rightarrow> 'a list result" where
  "py_remove x xs = (if x \<in> set xs then Inr (remove1 x xs) else Inl ValueError)"

text \<open>
  \<open>int(a / b)\<close>: true division followed by truncation towards zero. Python computes the
  quotient in double precision; for \<open>\<bar>a\<bar> < 2^53\<close> and \<open>0 < \<bar>b\<bar> < 2^53\<close> the rounded quotient
  truncates to the same integer as the exact one, which is what this definition returns.
\<close>

definition py_int_truediv :: "int \<Rightarrow> int \<Rightarrow> int result" where
  "py_int_truediv a b =
     (if b = 0 then Inl ZeroDivisionError else Inr (sgn a * sgn b * (\<bar>a\<bar> div \<bar>b\<bar>)))"

type_synonym ('k, 'v) dict = "('k \<times> 'v) list"

text \<open>\<open>d[k]\<close> as an expression: \<open>KeyError\<close> for a missing key.\<close>

definition dict_get :: "('k, 'v) dict \<Rightarrow> 'k \<Rightarrow> 'v result" where
  "dict_get d k = (case map_of d k of None \<Rightarrow> Inl KeyError | Some v \<Rightarrow> Inr v)"

text \<open>\<open>d[k] = v\<close>: overwrites in place, or appends a new key at the end.\<close>

definition dict_set :: "'k \<Rightarrow> 'v \<Rightarrow> ('k, 'v) dict \<Rightarrow> ('k, 'v) dict" where
  "dict_set k v d = AList.update k v d"

text \<open>
  The idiom \<open>if k not in d: d[k] = [v] else: d[k].append(v)\<close>, used by both arrival
  generators and by the boarding stage.
\<close>

definition dict_append :: "'k \<Rightarrow> 'v \<Rightarrow> ('k, 'v list) dict \<Rightarrow> ('k, 'v list) dict" where
  "dict_append k v d =
     (case map_of d k of None \<Rightarrow> dict_set k [v] d | Some vs \<Rightarrow> dict_set k (vs @ [v]) d)"

section \<open>Entities (ES\_entities.py)\<close>

text \<open>
  \<open>Person\<close> and \<open>Elevator\<close> objects are mutable and shared: one \<open>Person\<close> is referenced
  from a waiting list or a passenger list, from \<open>total_people\<close>, later from
  \<open>reached_dest\<close>, and from the schedule of \<open>FileArrivals\<close>. People therefore live in a
  store, and every list holds addresses. Elevators are referenced from the one list
  \<open>Simulation.elevators\<close> only and are kept there as values.
\<close>

record person =
  start :: int
  target :: int
  wait_time :: int

type_synonym addr = nat
type_synonym heap = "addr \<Rightarrow> person"

text \<open>\<open>Person(start, target)\<close>: the waiting time always starts at 0.\<close>

definition Person :: "int \<Rightarrow> int \<Rightarrow> person" where
  "Person s t = \<lparr>start = s, target = t, wait_time = 0\<rparr>"

definition get_anger_level :: "person \<Rightarrow> int" where
  "get_anger_level p =
     (let x = wait_time p in
      if x \<in> set [0, 1, 2] then 0
      else if x \<in> set [3, 4] then 1
      else if x \<in> set [5, 6] then 2
      else if x \<in> set [7, 8] then 3
      else 4)"

record elevator =
  capacity :: int
  current_floor :: int
  target_floor :: int
  passengers :: "addr list"

text \<open>\<open>Elevator(capacity)\<close>: current and target floor 1, no passengers.\<close>

definition Elevator :: "int \<Rightarrow> elevator" where
  "Elevator c = \<lparr>capacity = c, current_floor = 1, target_floor = 1, passengers = []\<rparr>"

section \<open>Arrival generators (ES\_algorithms.py)\<close>

text \<open>
  \<open>SingleArrivals mf\<close> holds \<open>max_floor\<close>. \<open>FileArrivals mf data\<close> holds \<open>max_floor\<close>
  and \<open>arrival_data\<close>, the schedule read from the CSV file by the initializer: a dict from
  round number to the people of that round. \<open>generate\<close> takes the store and the next free
  address, and returns the arrivals, the generator (whose schedule \<open>FileArrivals.generate\<close>
  may extend), and the store and next free address after the call.
\<close>

datatype arrival_generator =
  SingleArrivals int
| FileArrivals int "(int, addr list) dict"

text \<open>The grouping loop \<open>for p in people: ...\<close> of both generators.\<close>

definition group_by_start :: "heap \<Rightarrow> addr list \<Rightarrow> (int, addr list) dict" where
  "group_by_start h people = fold (\<lambda>p dic. dict_append (start (h p)) p dic) people []"

fun generate ::
  "arrival_generator \<Rightarrow> int \<Rightarrow> heap \<times> addr \<Rightarrow>
     ((int, addr list) dict \<times> arrival_generator \<times> heap \<times> addr) result" where
  "generate (SingleArrivals max_floor) round_num (h, n) =
     (if max_floor - 1 = 0 then Inl ZeroDivisionError
      else
        let tgt_flr = (round_num mod (max_floor - 1)) + 2;
            h' = h(n := Person 1 tgt_flr)
        in Inr (group_by_start h' [n], SingleArrivals max_floor, h', Suc n))"
| "generate (FileArrivals max_floor arrival_data) round_num (h, n) =
     (let arrival_data' =
            (if map_of arrival_data round_num = None
             then dict_set round_num [] arrival_data else arrival_data)
      in bind_r (dict_get arrival_data' round_num) (\<lambda>people.
           Inr (group_by_start h people, FileArrivals max_floor arrival_data', h, n)))"

section \<open>Moving algorithms (ES\_algorithms.py)\<close>

text \<open>
  \<open>update_target_floors(elevators, waiting, max_floor)\<close> receives references to the
  elevators and to the waiting table, and through them to the people. The embedding passes
  all three (elevators, waiting table, store of people) and returns all three, so that what
  the call leaves untouched is a statement about its result.
\<close>

datatype moving_algorithm = EndToEndLoop | FurthestFloor

text \<open>The body of the loop of \<open>EndToEndLoop.update_target_floors\<close>.\<close>

definition end_to_end_elevator :: "int \<Rightarrow> elevator \<Rightarrow> elevator" where
  "end_to_end_elevator max_floor e =
     (if current_floor e = 1 then e\<lparr>target_floor := max_floor\<rparr>
      else if current_floor e = max_floor then e\<lparr>target_floor := 1\<rparr>
      else e)"

text \<open>
  Both non-trivial cases of \<open>FurthestFloor\<close> end in the same four steps on a list of
  distances \<open>dist\<close> and a list of candidate floors: \<open>max(dist)\<close>, the list \<open>note\<close> of
  \<open>dist.index(d)\<close> for every \<open>d\<close> equal to the maximum, the floors at the noted
  positions, and their \<open>min\<close>. In case 1 the floor at position \<open>i\<close> is
  \<open>e.passengers[i].target\<close>, in case 2 it is \<open>f[i]\<close>.
\<close>

definition furthest_passenger_target :: "heap \<Rightarrow> elevator \<Rightarrow> int result" where
  "furthest_passenger_target h e =
     (let dist = map (\<lambda>p. \<bar>current_floor e - target (h p)\<bar>) (passengers e) in
      bind_r (py_max dist) (\<lambda>max_dist.
      bind_r (map_r (py_index dist) (filter (\<lambda>d. max_dist = d) dist)) (\<lambda>note.
      bind_r (map_r (\<lambda>index_max_dist.
                bind_r (py_get (passengers e) index_max_dist) (\<lambda>p. Inr (target (h p))))
              note) (\<lambda>list_floor.
      py_min list_floor))))"

definition furthest_waiting_floor :: "(int, addr list) dict \<Rightarrow> elevator \<Rightarrow> int result" where
  "furthest_waiting_floor waiting e =
     (let f = map fst (filter (\<lambda>(floor, people). length people \<noteq> 0) waiting) in
      if length f = 0 then Inr (current_floor e)
      else
        let dist = map (\<lambda>item. \<bar>item - current_floor e\<bar>) f in
        bind_r (py_max dist) (\<lambda>max_dist.
        bind_r (map_r (py_index dist) (filter (\<lambda>d. max_dist = d) dist)) (\<lambda>note.
        bind_r (map_r (py_get f) note) (\<lambda>list_floor.
        py_min list_floor))))"

text \<open>The body of the loop of \<open>FurthestFloor.update_target_floors\<close>.\<close>

definition furthest_floor_elevator ::
  "heap \<Rightarrow> (int, addr list) dict \<Rightarrow> elevator \<Rightarrow> elevator result" where
  "furthest_floor_elevator h waiting e =
     (if length (passengers e) \<noteq> 0
      then bind_r (furthest_passenger_target h e) (\<lambda>t. Inr (e\<lparr>target_floor := t\<rparr>))
      else if target_floor e = current_floor e
      then bind_r (furthest_waiting_floor waiting e) (\<lambda>t. Inr (e\<lparr>target_floor := t\<rparr>))
      else Inr e)"

fun update_target_floors ::
  "moving_algorithm \<Rightarrow> elevator list \<times> (int, addr list) dict \<times> heap \<Rightarrow> int \<Rightarrow>
     (elevator list \<times> (int, addr list) dict \<times> heap) result" where
  "update_target_floors EndToEndLoop (elevators, waiting, h) max_floor =
     Inr (map (end_to_end_elevator max_floor) elevators, waiting, h)"
| "update_target_floors FurthestFloor (elevators, waiting, h) max_floor =
     bind_r (map_r (furthest_floor_elevator h waiting) elevators) (\<lambda>elevators'.
       Inr (elevators', waiting, h))"

text \<open>
  Specification predicate: position \<open>i\<close> of \<open>ds\<close> holds a maximum of the list and is the
  first position that does. It describes every entry of the list \<open>note\<close> above.
\<close>

definition first_max :: "int list \<Rightarrow> nat \<Rightarrow> bool" where
  "first_max ds i \<longleftrightarrow>
     i < length ds \<and> (\<forall>j<length ds. ds ! j \<le> ds ! i) \<and> (\<forall>j<i. ds ! j < ds ! i)"

section \<open>The simulation (ES\_simulation.py)\<close>

text \<open>
  The state of a \<open>Simulation\<close> object, together with the store of people and the next
  free address. The visualizer is left out: with \<open>visualize = False\<close> each of its methods
  returns at once, and with \<open>visualize = True\<close> it only draws and waits.
\<close>

record simulation =
  arrival_generator :: arrival_generator
  elevators :: "elevator list"
  moving_algorithm :: moving_algorithm
  num_floors :: int
  waiting :: "(int, addr list) dict"
  total_people :: "addr list"
  reached_dest :: "addr list"
  store :: heap
  next_addr :: addr

record config =
  cfg_num_floors :: int
  cfg_num_elevators :: int
  cfg_elevator_capacity :: int
  cfg_arrival_generator :: arrival_generator
  cfg_moving_algorithm :: moving_algorithm

text \<open>
  \<open>Simulation(config)\<close>. The store and the next free address are those left by the
  construction of the arrival generator. \<open>range(n)\<close> is \<open>[0..n - 1]\<close>.
\<close>

definition Simulation :: "config \<Rightarrow> heap \<Rightarrow> addr \<Rightarrow> simulation" where
  "Simulation cfg h n =
     \<lparr>arrival_generator = cfg_arrival_generator cfg,
      elevators = map (\<lambda>i. Elevator (cfg_elevator_capacity cfg)) [0..cfg_num_elevators cfg - 1],
      moving_algorithm = cfg_moving_algorithm cfg,
      num_floors = cfg_num_floors cfg,
      waiting = map (\<lambda>i. (i + 1, [])) [0..cfg_num_floors cfg - 1],
      total_people = [],
      reached_dest = [],
      store = h,
      next_addr = n\<rparr>"

subsection \<open>Stage 1: disembarking\<close>

text \<open>
  One iteration of the loop over the elevators: the passengers whose target is the current
  floor are appended to \<open>reached_dest\<close> and collected in \<open>temp\<close>, then removed from the
  passenger list one by one.
\<close>

definition disembark_elevator ::
  "heap \<Rightarrow> elevator \<Rightarrow> addr list \<Rightarrow> (elevator \<times> addr list) result" where
  "disembark_elevator h e reached =
     (let temp = filter (\<lambda>p. current_floor e = target (h p)) (passengers e) in
      bind_r (fold_r py_remove temp (passengers e)) (\<lambda>ps.
        Inr (e\<lparr>passengers := ps\<rparr>, reached @ temp)))"

fun disembark_all ::
  "heap \<Rightarrow> elevator list \<Rightarrow> addr list \<Rightarrow> (elevator list \<times> addr list) result" where
  "disembark_all h [] reached = Inr ([], reached)"
| "disembark_all h (e # es) reached =
     bind_r (disembark_elevator h e reached) (\<lambda>(e', reached').
     bind_r (disembark_all h es reached') (\<lambda>(es', reached'').
       Inr (e' # es', reached'')))"

definition handle_disembarking :: "simulation \<Rightarrow> simulation result" where
  "handle_disembarking s =
     bind_r (disembark_all (store s) (elevators s) (reached_dest s)) (\<lambda>(es, reached).
       Inr (s\<lparr>elevators := es, reached_dest := reached\<rparr>))"

subsection \<open>Stage 2: arrivals\<close>

text \<open>
  One iteration of \<open>for key in my_arrivals\<close>: \<open>self.waiting[key]\<close> raises \<open>KeyError\<close>
  for a floor that the building does not have.
\<close>

definition add_arrivals ::
  "int \<times> addr list \<Rightarrow> (int, addr list) dict \<times> addr list \<Rightarrow>
     ((int, addr list) dict \<times> addr list) result" where
  "add_arrivals = (\<lambda>(key, people) (w, total).
     bind_r (dict_get w key) (\<lambda>l. Inr (dict_set key (l @ people) w, total @ people)))"

definition generate_arrivals :: "int \<Rightarrow> simulation \<Rightarrow> simulation result" where
  "generate_arrivals round_num s =
     bind_r (generate (arrival_generator s) round_num (store s, next_addr s))
       (\<lambda>(my_arrivals, g, h, n).
     bind_r (fold_r add_arrivals my_arrivals (waiting s, total_people s)) (\<lambda>(w, total).
       Inr (s\<lparr>arrival_generator := g, waiting := w, total_people := total,
              store := h, next_addr := n\<rparr>)))"

subsection \<open>Stage 3: boarding\<close>

text \<open>The direction test of \<open>handle_boarding\<close>, for floor \<open>key\<close>, elevator \<open>e\<close>, person \<open>p\<close>.\<close>

definition direction_ok :: "heap \<Rightarrow> int \<Rightarrow> elevator \<Rightarrow> addr \<Rightarrow> bool" where
  "direction_ok h key e p \<longleftrightarrow>
     (key > target (h p) \<and> target_floor e \<le> key) \<or> (key < target (h p) \<and> target_floor e \<ge> key)"

text \<open>
  The body of \<open>for p in self.waiting[key]\<close>, on the elevator and the dict \<open>boarded\<close>.
  The direction test reads \<open>e.target_floor\<close>, which the loop does not assign.
\<close>

definition board_person ::
  "heap \<Rightarrow> int \<Rightarrow> addr \<Rightarrow> elevator \<times> (int, addr list) dict \<Rightarrow>
     elevator \<times> (int, addr list) dict" where
  "board_person h key p = (\<lambda>(e, boarded).
     if direction_ok h key e p then
       (if int (length (passengers e)) < capacity e
        then (e\<lparr>passengers := passengers e @ [p]\<rparr>, dict_append key p boarded)
        else (e, boarded))
     else (e, boarded))"

text \<open>
  \<open>for key in self.waiting: if e.current_floor == key: for p in self.waiting[key]: ...\<close>,
  starting from \<open>boarded = {}\<close>. The waiting table is only read here.
\<close>

definition scan_waiting ::
  "heap \<Rightarrow> (int, addr list) dict \<Rightarrow> elevator \<Rightarrow> elevator \<times> (int, addr list) dict" where
  "scan_waiting h w e =
     fold (\<lambda>(key, people) st.
             if current_floor e = key then fold (board_person h key) people st else st)
          w (e, [])"

text \<open>\<open>self.waiting[f].remove(person)\<close>.\<close>

definition remove_waiting ::
  "int \<Rightarrow> addr \<Rightarrow> (int, addr list) dict \<Rightarrow> (int, addr list) dict result" where
  "remove_waiting f person w =
     bind_r (dict_get w f) (\<lambda>l.
     bind_r (py_remove person l) (\<lambda>l'. Inr (dict_set f l' w)))"

text \<open>\<open>for f in boarded: for person in boarded[f]: self.waiting[f].remove(person)\<close>.\<close>

definition remove_boarded ::
  "(int, addr list) dict \<Rightarrow> (int, addr list) dict \<Rightarrow> (int, addr list) dict result" where
  "remove_boarded boarded w =
     fold_r (\<lambda>(f, people) w'. fold_r (remove_waiting f) people w') boarded w"

text \<open>One iteration of \<open>for e in self.elevators\<close> in \<open>handle_boarding\<close>.\<close>

definition board_elevator ::
  "heap \<Rightarrow> (int, addr list) dict \<Rightarrow> elevator \<Rightarrow>
     (elevator \<times> (int, addr list) dict) result" where
  "board_elevator h w e =
     (case scan_waiting h w e of (e', boarded) \<Rightarrow>
        bind_r (remove_boarded boarded w) (\<lambda>w'. Inr (e', w')))"

fun board_all ::
  "heap \<Rightarrow> elevator list \<Rightarrow> (int, addr list) dict \<Rightarrow>
     (elevator list \<times> (int, addr list) dict) result" where
  "board_all h [] w = Inr ([], w)"
| "board_all h (e # es) w =
     bind_r (board_elevator h w e) (\<lambda>(e', w').
     bind_r (board_all h es w') (\<lambda>(es', w'').
       Inr (e' # es', w'')))"

definition handle_boarding :: "simulation \<Rightarrow> simulation result" where
  "handle_boarding s =
     bind_r (board_all (store s) (elevators s) (waiting s)) (\<lambda>(es, w).
       Inr (s\<lparr>elevators := es, waiting := w\<rparr>))"

subsection \<open>Stage 4: moving\<close>

definition move_elevator :: "elevator \<Rightarrow> elevator" where
  "move_elevator e =
     (if current_floor e > target_floor e then e\<lparr>current_floor := current_floor e - 1\<rparr>
      else if current_floor e < target_floor e then e\<lparr>current_floor := current_floor e + 1\<rparr>
      else e)"

definition move_elevators :: "simulation \<Rightarrow> simulation result" where
  "move_elevators s =
     bind_r (update_target_floors (moving_algorithm s) (elevators s, waiting s, store s)
               (num_floors s)) (\<lambda>(es, w, h).
       Inr (s\<lparr>elevators := map move_elevator es, waiting := w, store := h\<rparr>))"

subsection \<open>Stage 5: waiting times\<close>

text \<open>\<open>p.wait_time += 1\<close> on the object at address \<open>p\<close>.\<close>

definition tick :: "addr \<Rightarrow> heap \<Rightarrow> heap" where
  "tick p h = h(p := (h p)\<lparr>wait_time := wait_time (h p) + 1\<rparr>)"

definition update_wait_times :: "simulation \<Rightarrow> simulation" where
  "update_wait_times s =
     s\<lparr>store :=
         fold (\<lambda>(key, people) h. fold tick people h) (waiting s)
           (fold (\<lambda>e h. fold tick (passengers e) h) (elevators s) (store s))\<rparr>"

subsection \<open>Statistics and the main loop\<close>

text \<open>
  \<open>_calculate_stats(num_rounds)\<close>. The result dict lists its keys in the order of the
  source; \<open>total\<close> stands for the variable \<open>sum_\<close>.
\<close>

definition calculate_stats :: "int \<Rightarrow> simulation \<Rightarrow> (string, int) dict result" where
  "calculate_stats num_rounds s =
     bind_r
       (if length (reached_dest s) = 0 then Inr (- 1, - 1)
        else
          let wait_times = map (\<lambda>p. wait_time (store s p)) (reached_dest s) in
          bind_r (py_max wait_times) (\<lambda>max_time.
          let total = sum_list wait_times in
          bind_r (py_int_truediv total (int (length wait_times))) (\<lambda>avg_time.
            Inr (max_time, avg_time))))
       (\<lambda>(max_time, avg_time).
          Inr [(''num_rounds'', num_rounds),
               (''total_people'', int (length (total_people s))),
               (''people_completed'', int (length (reached_dest s))),
               (''max_time'', max_time),
               (''avg_time'', avg_time)])"

text \<open>The body of the loop of \<open>run\<close>: the five stages of round \<open>i\<close>, in this order.\<close>

definition sim_round :: "int \<Rightarrow> simulation \<Rightarrow> simulation result" where
  "sim_round i s =
     bind_r (handle_disembarking s) (\<lambda>s1.
     bind_r (generate_arrivals i s1) (\<lambda>s2.
     bind_r (handle_boarding s2) (\<lambda>s3.
     bind_r (move_elevators s3) (\<lambda>s4.
       Inr (update_wait_times s4)))))"

text \<open>
  \<open>run(num_rounds)\<close> returns the statistics; the embedding returns the state of the
  object after the call as well, since a later call starts from it.
\<close>

definition run :: "int \<Rightarrow> simulation \<Rightarrow> ((string, int) dict \<times> simulation) result" where
  "run num_rounds s =
     bind_r (fold_r sim_round [0..num_rounds - 1] s) (\<lambda>s'.
     bind_r (calculate_stats num_rounds s') (\<lambda>stats.
       Inr (stats, s')))"

section \<open>Specification-level notions and examples\<close>

text \<open>
  Specification function: the people an elevator \<open>e\<close> takes from the waiting list of floor
  \<open>key\<close>, namely the first ones that pass the direction test, as many as there are free
  places.
\<close>

definition boarders :: "heap \<Rightarrow> int \<Rightarrow> elevator \<Rightarrow> addr list \<Rightarrow> addr list" where
  "boarders h key e people =
     take (nat (capacity e - int (length (passengers e)))) (filter (direction_ok h key e) people)"

text \<open>
  Two consecutive calls \<open>run(n1)\<close>, \<open>run(n2)\<close> on one \<open>Simulation\<close> object, returning
  what the second call returns.
\<close>

definition run_twice :: "int \<Rightarrow> int \<Rightarrow> simulation \<Rightarrow> (string, int) dict result" where
  "run_twice n1 n2 s =
     bind_r (run n1 s) (\<lambda>(stats1, s1).
     bind_r (run n2 s1) (\<lambda>(stats2, s2). Inr stats2))"

text \<open>
  The configuration of \<open>get_example_config\<close> in ES\_sample\_test.py: 6 floors, 2 elevators
  of capacity 2, \<open>SingleArrivals(6)\<close> and \<open>EndToEndLoop\<close>. No person exists before the
  first round.
\<close>

definition example_config :: config where
  "example_config =
     \<lparr>cfg_num_floors = 6, cfg_num_elevators = 2, cfg_elevator_capacity = 2,
      cfg_arrival_generator = SingleArrivals 6, cfg_moving_algorithm = EndToEndLoop\<rparr>"

definition example_simulation :: simulation where
  "example_simulation = Simulation example_config (\<lambda>a. Person 1 2) 0"

text \<open>The preconditions of \<open>Simulation.__init__\<close> on the configuration.\<close>

definition valid_config :: "config \<Rightarrow> bool" where
  "valid_config cfg \<longleftrightarrow>
     cfg_num_floors cfg \<ge> 2 \<and> cfg_elevator_capacity cfg \<ge> 1 \<and> cfg_num_elevators cfg \<ge> 1"

text \<open>
  The states a simulation can be in: the state after construction from a valid
  configuration, and every state that one of the five stages produces from a reachable
  state. \<open>run\<close> applies the stages in a fixed order, so the states it goes through after
  every stage of every round are among these (lemmas \<open>reachable_sim_round\<close>,
  \<open>reachable_run\<close>).
\<close>

inductive reachable :: "simulation \<Rightarrow> bool" where
  constructed: "valid_config cfg \<Longrightarrow> reachable (Simulation cfg h n)"
| disembarked: "reachable s \<Longrightarrow> handle_disembarking s = Inr s' \<Longrightarrow> reachable s'"
| arrived: "reachable s \<Longrightarrow> generate_arrivals i s = Inr s' \<Longrightarrow> reachable s'"
| boarded: "reachable s \<Longrightarrow> handle_boarding s = Inr s' \<Longrightarrow> reachable s'"
| moved: "reachable s \<Longrightarrow> move_elevators s = Inr s' \<Longrightarrow> reachable s'"
| ticked: "reachable s \<Longrightarrow> reachable (update_wait_times s)"

text \<open>The representation invariant \<open>len(self.passengers) <= self.capacity\<close>.\<close>

definition within_capacity :: "elevator \<Rightarrow> bool" where
  "within_capacity e \<longleftrightarrow> int (length (passengers e)) \<le> capacity e"

text \<open>
  The example simulation after ten rounds and the first three stages of round 10: both
  elevators are back at floor 1 and have boarded four of the ten people who waited there.
\<close>

definition example_boarded :: "simulation result" where
  "example_boarded =
     bind_r (fold_r sim_round [0..9] example_simulation) (\<lambda>s.
     bind_r (handle_disembarking s) (\<lambda>s1.
     bind_r (generate_arrivals 10 s1) handle_boarding))"

text \<open>
  The states in which a round with the \<open>SingleArrivals\<close> generator cannot raise: the
  waiting table is a dict (distinct keys) that has floor 1. Every stage keeps this.
\<close>

definition single_ready :: "int \<Rightarrow> simulation \<Rightarrow> bool" where
  "single_ready mf s \<longleftrightarrow>
     arrival_generator s = SingleArrivals mf \<and> distinct (map fst (waiting s))
     \<and> 1 \<in> set (map fst (waiting s))"

text \<open>
  The Board rule of the specification for the turn of one elevator \<open>e\<close> on the waiting
  table \<open>w\<close>: the elevator with its boarders appended, and the table without them.
\<close>

definition elevator_after_turn :: "heap \<Rightarrow> (int, addr list) dict \<Rightarrow> elevator \<Rightarrow> elevator" where
  "elevator_after_turn h w e =
     (case map_of w (current_floor e) of
        None \<Rightarrow> e
      | Some people \<Rightarrow> e\<lparr>passengers := passengers e @ boarders h (current_floor e) e people\<rparr>)"

definition waiting_after_turn ::
  "heap \<Rightarrow> (int, addr list) dict \<Rightarrow> elevator \<Rightarrow> (int, addr list) dict" where
  "waiting_after_turn h w e =
     (case map_of w (current_floor e) of
        None \<Rightarrow> w
      | Some people \<Rightarrow>
          AList.update (current_floor e)
            (filter (\<lambda>p. p \<notin> set (boarders h (current_floor e) e people)) people) w)"

text \<open>
  The waiting table at the turn of the elevator at position \<open>j\<close>: the table after the
  elevators before it, in list order, have had their turns.
\<close>

definition waiting_at_turn ::
  "heap \<Rightarrow> elevator list \<Rightarrow> (int, addr list) dict \<Rightarrow> nat \<Rightarrow> (int, addr list) dict" where
  "waiting_at_turn h es w j = fold (\<lambda>e w'. waiting_after_turn h w' e) (take j es) w"

text \<open>
  A state at the start of a Board stage: two elevators at floor 3, the first heading to
  floor 5 with one free place, the second idle and empty; at floor 3 wait a person going
  down to floor 1 and two people going up, to floors 4 and 5.
\<close>

definition example_board_state :: simulation where
  "example_board_state =
     \<lparr>arrival_generator = SingleArrivals 5,
      elevators = [\<lparr>capacity = 2, current_floor = 3, target_floor = 5, passengers = [9]\<rparr>,
                   \<lparr>capacity = 2, current_floor = 3, target_floor = 3, passengers = []\<rparr>],
      moving_algorithm = FurthestFloor,
      num_floors = 5,
      waiting = [(1, []), (2, []), (3, [0, 1, 2]), (4, []), (5, [])],
      total_people = [9, 0, 1, 2],
      reached_dest = [],
      store = (\<lambda>a. Person 3 5)(0 := Person 3 1, 1 := Person 3 4, 9 := Person 1 5),
      next_addr = 10\<rparr>"

section \<open>Properties of the dict idiom and of the arrival generators\<close>

lemma update_absent: "map_of d k = None \<Longrightarrow> AList.update k v d = d @ [(k, v)]"
  by (induction d) (auto split: if_splits)

lemma dict_append_map_of:
  "map_of (dict_append k v d) f =
     (if f = k then Some ((case map_of d k of None \<Rightarrow> [] | Some vs \<Rightarrow> vs) @ [v]) else map_of d f)"
  by (simp add: dict_append_def dict_set_def update_conv' split: option.splits)

lemma dict_append_distinct:
  "distinct (map fst d) \<Longrightarrow> distinct (map fst (dict_append k v d))"
  by (simp add: dict_append_def dict_set_def distinct_update split: option.splits)

lemma dict_append_keys:
  "set (map fst (dict_append k v d)) = insert k (set (map fst d))"
  using dom_update [of k _ d]
  by (auto simp: dict_append_def dict_set_def split: option.splits)

lemma fold_dict_append_distinct:
  "distinct (map fst d) \<Longrightarrow> distinct (map fst (fold (\<lambda>p. dict_append (key p) p) ps d))"
  by (induction ps arbitrary: d) (simp_all add: dict_append_distinct)

lemma fold_dict_append_map_of:
  "map_of (fold (\<lambda>p. dict_append (key p) p) ps d) f =
     (case map_of d f of
        None \<Rightarrow> (if \<exists>p\<in>set ps. key p = f then Some (filter (\<lambda>p. key p = f) ps) else None)
      | Some vs \<Rightarrow> Some (vs @ filter (\<lambda>p. key p = f) ps))"
proof (induction ps arbitrary: d)
  case Nil
  then show ?case by (simp split: option.splits)
next
  case (Cons p ps)
  show ?case
    by (simp add: Cons.IH dict_append_map_of split: option.splits)
qed

lemma group_by_start_map_of:
  "map_of (group_by_start h people) f =
     (if \<exists>p\<in>set people. start (h p) = f
      then Some (filter (\<lambda>p. start (h p) = f) people) else None)"
  unfolding group_by_start_def
  by (simp add: fold_dict_append_map_of [where key = "\<lambda>p. start (h p)"])

lemma group_by_start_distinct: "distinct (map fst (group_by_start h people))"
  unfolding group_by_start_def
  by (rule fold_dict_append_distinct [where key = "\<lambda>p. start (h p)"]) simp

lemma group_by_start_Nil: "group_by_start h [] = []"
  by (simp add: group_by_start_def)

lemma group_by_start_single: "group_by_start h [p] = [(start (h p), [p])]"
  by (simp add: group_by_start_def dict_append_def dict_set_def)

text \<open>
  Claim C4. For every round \<open>r \<ge> 0\<close> and every \<open>max_floor \<ge> 2\<close>,
  \<open>SingleArrivals(max_floor).generate(r)\<close> returns a mapping with the single key 1 whose
  list holds exactly one person, created by the call at the next free address, with start
  floor 1, waiting time 0 and target floor \<open>(r mod (max_floor - 1)) + 2\<close>. For
  \<open>max_floor = 4\<close> the targets of rounds 0 to 6 are 2, 3, 4, 2, 3, 4, 2.
\<close>

theorem single_arrivals_generate:
  assumes "0 \<le> r" and "2 \<le> max_floor"
  shows "generate (SingleArrivals max_floor) r (h, n) =
           Inr ([(1, [n])], SingleArrivals max_floor,
                h(n := \<lparr>start = 1, target = r mod (max_floor - 1) + 2, wait_time = 0\<rparr>), Suc n)
         \<and> map (\<lambda>i. case generate (SingleArrivals 4) i (h, n) of
                      Inl e \<Rightarrow> []
                    | Inr (arrivals, g, h', n') \<Rightarrow>
                        map (\<lambda>(floor, people). (floor, map (\<lambda>p. target (h' p)) people)) arrivals)
               [0, 1, 2, 3, 4, 5, 6]
             = [[(1, [2])], [(1, [3])], [(1, [4])], [(1, [2])], [(1, [3])], [(1, [4])], [(1, [2])]]"
  using assms by (simp add: group_by_start_single Person_def Let_def)

theorem single_arrivals_generate_witness:
  "(0::int) \<le> 5 \<and> (2::int) \<le> 4 \<and>
   generate (SingleArrivals 4) 5 (\<lambda>a. Person 3 1, 7) =
     Inr ([(1, [7])], SingleArrivals 4,
          (\<lambda>a. Person 3 1)(7 := \<lparr>start = 1, target = 4, wait_time = 0\<rparr>), 8)"
  using single_arrivals_generate [of 5 4 "\<lambda>a. Person 3 1" 7] by simp

text \<open>
  Claim C8. \<open>FileArrivals.generate(r)\<close> for a round with no entry in the schedule returns
  the empty mapping and does not raise (it records the round in the schedule with an empty
  list). For a scheduled round it returns the people scheduled for that round grouped by
  start floor: the keys are the start floors that occur, and the group of a floor is the
  sublist of the scheduled people starting there, in schedule order.
\<close>

theorem file_arrivals_generate:
  "(map_of arrival_data r = None \<longrightarrow>
      generate (FileArrivals max_floor arrival_data) r (h, n) =
        Inr ([], FileArrivals max_floor (arrival_data @ [(r, [])]), h, n))
   \<and> (\<forall>people. map_of arrival_data r = Some people \<longrightarrow>
        (\<exists>arrivals.
           generate (FileArrivals max_floor arrival_data) r (h, n) =
             Inr (arrivals, FileArrivals max_floor arrival_data, h, n)
           \<and> distinct (map fst arrivals)
           \<and> (\<forall>floor. map_of arrivals floor =
                 (if \<exists>p\<in>set people. start (h p) = floor
                  then Some (filter (\<lambda>p. start (h p) = floor) people) else None))))"
proof (intro conjI impI allI)
  assume "map_of arrival_data r = None"
  then show "generate (FileArrivals max_floor arrival_data) r (h, n) =
        Inr ([], FileArrivals max_floor (arrival_data @ [(r, [])]), h, n)"
    by (simp add: dict_get_def dict_set_def update_absent bind_r_def group_by_start_Nil map_add_def)
next
  fix people assume "map_of arrival_data r = Some people"
  then have "generate (FileArrivals max_floor arrival_data) r (h, n) =
      Inr (group_by_start h people, FileArrivals max_floor arrival_data, h, n)"
    by (simp add: dict_get_def bind_r_def)
  then show "\<exists>arrivals.
           generate (FileArrivals max_floor arrival_data) r (h, n) =
             Inr (arrivals, FileArrivals max_floor arrival_data, h, n)
           \<and> distinct (map fst arrivals)
           \<and> (\<forall>floor. map_of arrivals floor =
                 (if \<exists>p\<in>set people. start (h p) = floor
                  then Some (filter (\<lambda>p. start (h p) = floor) people) else None))"
    using group_by_start_distinct [of h people] group_by_start_map_of [of h people]
    by blast
qed


theorem file_arrivals_generate_witness:
  "map_of [(0::int, [0::nat, 1, 2])] 3 = None
   \<and> generate (FileArrivals 5 [(0, [0, 1, 2])]) 3
        ((\<lambda>a. Person 2 1)(0 := Person 1 4, 1 := Person 5 3, 2 := Person 1 3), 3) =
       Inr ([], FileArrivals 5 [(0, [0, 1, 2]), (3, [])],
            (\<lambda>a. Person 2 1)(0 := Person 1 4, 1 := Person 5 3, 2 := Person 1 3), 3)
   \<and> map_of [(0::int, [0::nat, 1, 2])] 0 = Some [0, 1, 2]
   \<and> (\<exists>arrivals.
        generate (FileArrivals 5 [(0, [0, 1, 2])]) 0
          ((\<lambda>a. Person 2 1)(0 := Person 1 4, 1 := Person 5 3, 2 := Person 1 3), 3) =
        Inr (arrivals, FileArrivals 5 [(0, [0, 1, 2])],
             (\<lambda>a. Person 2 1)(0 := Person 1 4, 1 := Person 5 3, 2 := Person 1 3), 3)
        \<and> map_of arrivals 1 = Some [0, 2] \<and> map_of arrivals 5 = Some [1]
        \<and> map_of arrivals 2 = None)"
proof -
  let ?h = "(\<lambda>a. Person 2 1)(0 := Person 1 4, 1 := Person 5 3, 2 := Person 1 3)"
  let ?d = "[(0::int, [0::nat, 1, 2])]"
  have none: "map_of ?d 3 = None" by simp
  have some: "map_of ?d 0 = Some [0, 1, 2]" by simp
  have a: "generate (FileArrivals 5 ?d) 3 (?h, 3) =
      Inr ([], FileArrivals 5 (?d @ [(3, [])]), ?h, 3)"
    using file_arrivals_generate [of ?d 3 5 ?h 3] none by blast
  obtain arrivals where b:
    "generate (FileArrivals 5 ?d) 0 (?h, 3) = Inr (arrivals, FileArrivals 5 ?d, ?h, 3)"
    and c: "\<And>floor. map_of arrivals floor =
              (if \<exists>p\<in>set [0::nat, 1, 2]. start (?h p) = floor
               then Some (filter (\<lambda>p. start (?h p) = floor) [0, 1, 2]) else None)"
    using file_arrivals_generate [of ?d 0 5 ?h 3] some by blast
  have "map_of arrivals 1 = Some [0, 2]" "map_of arrivals 5 = Some [1]"
    "map_of arrivals 2 = None"
    by (simp_all add: c Person_def)
  with a b none some show ?thesis by auto
qed

section \<open>Properties of the moving algorithms\<close>

lemma bind_r_Inr: "bind_r (Inr x) f = f x"
  by (simp add: bind_r_def)

lemma bind_r_Inl: "bind_r (Inl e) f = Inl e"
  by (simp add: bind_r_def)

lemma py_max_Max: "xs \<noteq> [] \<Longrightarrow> py_max xs = Inr (Max (set xs))"
  by (cases xs) (simp_all add: Max.set_eq_fold [symmetric])

lemma py_min_replicate: "0 < k \<Longrightarrow> py_min (replicate k v) = Inr v"
proof -
  have "fold min (replicate j v) v = v" for j
    by (induction j) simp_all
  then show "0 < k \<Longrightarrow> py_min (replicate k v) = Inr v"
    by (cases k) simp_all
qed

lemma py_index_first:
  "x \<in> set xs \<Longrightarrow>
     \<exists>i. py_index xs x = Inr i \<and> i < length xs \<and> xs ! i = x \<and> (\<forall>j<i. xs ! j \<noteq> x)"
proof (induction xs)
  case Nil
  then show ?case by simp
next
  case (Cons y ys)
  show ?case
  proof (cases "y = x")
    case True
    then have "py_index (y # ys) x = Inr 0" by simp
    then show ?thesis using True by (intro exI [of _ 0]) simp
  next
    case False
    with Cons obtain i where i: "py_index ys x = Inr i" "i < length ys" "ys ! i = x"
      "\<forall>j<i. ys ! j \<noteq> x" by auto
    have a: "py_index (y # ys) x = Inr (Suc i)"
      using False i(1) by (simp add: bind_r_Inr)
    have b: "\<forall>j<Suc i. (y # ys) ! j \<noteq> x"
    proof (intro allI impI)
      fix j assume "j < Suc i"
      then show "(y # ys) ! j \<noteq> x"
        using False i(4) by (cases j) simp_all
    qed
    show ?thesis
      using a b i(2,3) by (intro exI [of _ "Suc i"]) simp
  qed
qed

lemma map_r_const:
  "(\<And>x. x \<in> set xs \<Longrightarrow> f x = Inr c) \<Longrightarrow> map_r f xs = Inr (replicate (length xs) c)"
  by (induction xs) (simp_all add: bind_r_Inr)

lemma map_r_replicate:
  "f c = Inr v \<Longrightarrow> map_r f (replicate k c) = Inr (replicate k v)"
  by (induction k) (simp_all add: bind_r_Inr)

lemma note_first_max:
  assumes ne: "ds \<noteq> []"
  shows "\<exists>i k. first_max ds i \<and> 0 < k \<and> py_max ds = Inr (ds ! i)
           \<and> map_r (py_index ds) (filter (\<lambda>d. ds ! i = d) ds) = Inr (replicate k i)"
proof -
  let ?m = "Max (set ds)"
  have m_in: "?m \<in> set ds" using ne by (intro Max_in) simp_all
  from py_index_first [OF m_in]
  obtain i where i: "py_index ds ?m = Inr i" "i < length ds" "ds ! i = ?m"
    and first: "\<forall>j<i. ds ! j \<noteq> ?m" by (elim exE conjE)
  have le: "ds ! j \<le> ?m" if "j < length ds" for j
    using that by simp
  have less: "ds ! j < ?m" if "j < i" for j
  proof -
    have "ds ! j \<le> ?m" using le that i(2) by simp
    moreover have "ds ! j \<noteq> ?m" using first that by blast
    ultimately show ?thesis by linarith
  qed
  have fm: "first_max ds i"
    unfolding first_max_def using i(2) le less by (simp add: i(3))
  let ?k = "length (filter (\<lambda>d. ?m = d) ds)"
  have k: "0 < ?k" using m_in by (simp add: filter_empty_conv)
  have nt: "map_r (py_index ds) (filter (\<lambda>d. ?m = d) ds) = Inr (replicate ?k i)"
  proof (rule map_r_const)
    fix x assume "x \<in> set (filter (\<lambda>d. ?m = d) ds)"
    then have "x = ?m" by simp
    then show "py_index ds x = Inr i" using i(1) by simp
  qed
  have mx: "py_max ds = Inr (ds ! i)" using ne by (simp add: py_max_Max i(3))
  have nt': "map_r (py_index ds) (filter (\<lambda>d. ds ! i = d) ds) = Inr (replicate ?k i)"
    using nt by (simp only: i(3))
  show ?thesis
    by (rule exI [of _ i], rule exI [of _ ?k]) (intro conjI fm k mx nt')
qed


lemma furthest_passenger_target_first:
  assumes "passengers e \<noteq> []"
  shows "\<exists>i. first_max (map (\<lambda>p. \<bar>current_floor e - target (h p)\<bar>) (passengers e)) i
           \<and> furthest_passenger_target h e = Inr (target (h (passengers e ! i)))"
proof -
  let ?ds = "map (\<lambda>p. \<bar>current_floor e - target (h p)\<bar>) (passengers e)"
  have "?ds \<noteq> []" using assms by simp
  from note_first_max [OF this] obtain i k where fm: "first_max ?ds i" and k: "0 < k"
    and mx: "py_max ?ds = Inr (?ds ! i)"
    and nt: "map_r (py_index ?ds) (filter (\<lambda>d. ?ds ! i = d) ?ds) = Inr (replicate k i)"
    by (elim exE conjE)
  have i: "i < length (passengers e)" using fm by (simp add: first_max_def)
  have get: "bind_r (py_get (passengers e) i) (\<lambda>p. Inr (target (h p)))
               = Inr (target (h (passengers e ! i)))"
    using i by (simp add: py_get_def bind_r_Inr)
  have fl: "map_r (\<lambda>j. bind_r (py_get (passengers e) j) (\<lambda>p. Inr (target (h p)))) (replicate k i)
              = Inr (replicate k (target (h (passengers e ! i))))"
    by (rule map_r_replicate) (rule get)
  have "furthest_passenger_target h e = Inr (target (h (passengers e ! i)))"
    unfolding furthest_passenger_target_def Let_def
    by (simp only: mx bind_r_Inr nt fl py_min_replicate [OF k])
  with fm show ?thesis by blast
qed

lemma furthest_waiting_floor_empty:
  assumes "map fst (filter (\<lambda>(floor, people). length people \<noteq> 0) w) = []"
  shows "furthest_waiting_floor w e = Inr (current_floor e)"
  unfolding furthest_waiting_floor_def Let_def using assms by simp

lemma furthest_waiting_floor_first:
  assumes "f = map fst (filter (\<lambda>(floor, people). length people \<noteq> 0) w)" and "f \<noteq> []"
  shows "\<exists>i. first_max (map (\<lambda>item. \<bar>item - current_floor e\<bar>) f) i
           \<and> furthest_waiting_floor w e = Inr (f ! i)"
proof -
  let ?ds = "map (\<lambda>item. \<bar>item - current_floor e\<bar>) f"
  have "?ds \<noteq> []" using assms(2) by simp
  from note_first_max [OF this] obtain i k where fm: "first_max ?ds i" and k: "0 < k"
    and mx: "py_max ?ds = Inr (?ds ! i)"
    and nt: "map_r (py_index ?ds) (filter (\<lambda>d. ?ds ! i = d) ?ds) = Inr (replicate k i)"
    by (elim exE conjE)
  have i: "i < length f" using fm by (simp add: first_max_def)
  have get: "py_get f i = Inr (f ! i)" using i by (simp add: py_get_def)
  have fl: "map_r (py_get f) (replicate k i) = Inr (replicate k (f ! i))"
    by (rule map_r_replicate) (rule get)
  have len: "length f \<noteq> 0" using assms(2) by simp
  have "furthest_waiting_floor w e = Inr (f ! i)"
    unfolding furthest_waiting_floor_def Let_def assms(1) [symmetric]
    by (simp only: len if_False mx bind_r_Inr nt fl py_min_replicate [OF k])
  with fm show ?thesis by blast
qed

lemma map_r_total:
  "(\<And>x. x \<in> set xs \<Longrightarrow> f x = Inr (g x)) \<Longrightarrow> map_r f xs = Inr (map g xs)"
  by (induction xs) (simp_all add: bind_r_Inr)

lemma first_max_sorted_Min:
  assumes fm: "first_max (map (\<lambda>x. \<bar>x - c\<bar>) f) i" and srt: "sorted_wrt (<) f"
  shows "f ! i = Min {x \<in> set f. \<forall>g\<in>set f. \<bar>g - c\<bar> \<le> \<bar>x - c\<bar>}"
proof -
  let ?S = "{x \<in> set f. \<forall>g\<in>set f. \<bar>g - c\<bar> \<le> \<bar>x - c\<bar>}"
  have i: "i < length f" using fm by (simp add: first_max_def)
  have le: "\<bar>f ! j - c\<bar> \<le> \<bar>f ! i - c\<bar>" if "j < length f" for j
    using fm that i by (simp add: first_max_def)
  have less: "\<bar>f ! j - c\<bar> < \<bar>f ! i - c\<bar>" if "j < i" for j
    using fm that i by (simp add: first_max_def)
  have in_S: "f ! i \<in> ?S"
  proof -
    have "\<bar>g - c\<bar> \<le> \<bar>f ! i - c\<bar>" if "g \<in> set f" for g
      using that le by (auto simp: in_set_conv_nth)
    then show ?thesis using i by simp
  qed
  have lower: "f ! i \<le> y" if "y \<in> ?S" for y
  proof -
    from that obtain j where j: "j < length f" "f ! j = y"
      by (auto simp: in_set_conv_nth)
    have "\<bar>f ! i - c\<bar> \<le> \<bar>y - c\<bar>" using that i by simp
    then have "\<not> j < i" using less [of j] j(2) by auto
    then have "i \<le> j" by simp
    show ?thesis
    proof (cases "i = j")
      case True
      then show ?thesis using j(2) by simp
    next
      case False
      then have "i < j" using \<open>i \<le> j\<close> by simp
      then have "f ! i < f ! j" using srt j(1) by (simp add: sorted_wrt_nth_less)
      then show ?thesis using j(2) by simp
    qed
  qed
  have "finite ?S" by simp
  then have "Min ?S = f ! i" using in_S lower by (intro Min_eqI) blast+
  then show ?thesis by simp
qed

lemma nonempty_floors_set:
  "set (map fst (filter (\<lambda>(floor, people). length people \<noteq> 0) w))
     = {floor. \<exists>people. (floor, people) \<in> set w \<and> people \<noteq> []}"
  by (auto simp: image_iff)

lemma nonempty_floors_sorted:
  assumes "sorted_wrt (<) (map fst w)"
  shows "sorted_wrt (<) (map fst (filter (\<lambda>(floor, people). length people \<noteq> 0) w))"
  using assms by (induction w) auto

lemma furthest_floor_elevator_target:
  "\<exists>t. furthest_floor_elevator h w e = Inr (e\<lparr>target_floor := t\<rparr>)"
proof (cases "passengers e = []")
  case False
  from furthest_passenger_target_first [OF False, of h] obtain i where
    "furthest_passenger_target h e = Inr (target (h (passengers e ! i)))" by blast
  then have "furthest_floor_elevator h w e
      = Inr (e\<lparr>target_floor := target (h (passengers e ! i))\<rparr>)"
    using False by (simp add: furthest_floor_elevator_def bind_r_Inr)
  then show ?thesis by (rule exI)
next
  case True
  show ?thesis
  proof (cases "target_floor e = current_floor e")
    case idle: True
    let ?f = "map fst (filter (\<lambda>(floor, people). length people \<noteq> 0) w)"
    have "\<exists>t. furthest_waiting_floor w e = Inr t"
    proof (cases "?f = []")
      case True
      then show ?thesis using furthest_waiting_floor_empty by blast
    next
      case False
      from furthest_waiting_floor_first [OF refl False, of e] show ?thesis by blast
    qed
    then obtain t where "furthest_waiting_floor w e = Inr t" by blast
    then have "furthest_floor_elevator h w e = Inr (e\<lparr>target_floor := t\<rparr>)"
      using True idle by (simp add: furthest_floor_elevator_def bind_r_Inr)
    then show ?thesis by (rule exI)
  next
    case False
    have "e = e\<lparr>target_floor := target_floor e\<rparr>" by simp
    then have "furthest_floor_elevator h w e = Inr (e\<lparr>target_floor := target_floor e\<rparr>)"
      using True False by (simp add: furthest_floor_elevator_def)
    then show ?thesis by blast
  qed
qed

lemma furthest_floor_empty_target:
  assumes srt: "sorted_wrt (<) (map fst w)" and emp: "passengers e = []"
  shows "furthest_floor_elevator h w e = Inr (e\<lparr>target_floor :=
           (let F = {floor. \<exists>people. (floor, people) \<in> set w \<and> people \<noteq> []} in
            if target_floor e = current_floor e then
              (if F = {} then current_floor e
               else Min {floor \<in> F. \<forall>g\<in>F. \<bar>g - current_floor e\<bar> \<le> \<bar>floor - current_floor e\<bar>})
            else target_floor e)\<rparr>)"
proof (cases "target_floor e = current_floor e")
  case False
  then show ?thesis using emp by (simp add: furthest_floor_elevator_def Let_def)
next
  case idle: True
  let ?f = "map fst (filter (\<lambda>(floor, people). length people \<noteq> 0) w)"
  let ?F = "{floor. \<exists>people. (floor, people) \<in> set w \<and> people \<noteq> []}"
  have F: "set ?f = ?F" by (rule nonempty_floors_set)
  show ?thesis
  proof (cases "?f = []")
    case True
    then have "?F = {}" using F by (metis set_empty)
    moreover have "furthest_waiting_floor w e = Inr (current_floor e)"
      using True by (rule furthest_waiting_floor_empty)
    ultimately show ?thesis using emp idle
      by (simp add: furthest_floor_elevator_def bind_r_Inr Let_def)
  next
    case False
    then have ne: "?F \<noteq> {}" using F by (metis set_empty)
    from furthest_waiting_floor_first [OF refl False, of e] obtain i where
      fm: "first_max (map (\<lambda>item. \<bar>item - current_floor e\<bar>) ?f) i"
      and r: "furthest_waiting_floor w e = Inr (?f ! i)" by blast
    have "?f ! i = Min {x \<in> set ?f. \<forall>g\<in>set ?f. \<bar>g - current_floor e\<bar> \<le> \<bar>x - current_floor e\<bar>}"
      using fm nonempty_floors_sorted [OF srt] by (rule first_max_sorted_Min)
    then have eq: "?f ! i = Min {x \<in> ?F. \<forall>g\<in>?F. \<bar>g - current_floor e\<bar> \<le> \<bar>x - current_floor e\<bar>}"
      unfolding F .
    have "furthest_floor_elevator h w e = Inr (e\<lparr>target_floor := ?f ! i\<rparr>)"
      using emp idle r by (simp add: furthest_floor_elevator_def bind_r_Inr)
    then show ?thesis
      by (simp only: Let_def idle ne if_True if_False eq simp_thms)
  qed
qed

lemma furthest_floor_all:
  "\<exists>T. map_r (furthest_floor_elevator h w) es
         = Inr (map (\<lambda>e. e\<lparr>target_floor := T e\<rparr>) es)
       \<and> (\<forall>e. furthest_floor_elevator h w e = Inr (e\<lparr>target_floor := T e\<rparr>))"
proof -
  have "\<forall>e. \<exists>t. furthest_floor_elevator h w e = Inr (e\<lparr>target_floor := t\<rparr>)"
    using furthest_floor_elevator_target by blast
  from choice [OF this] obtain T where
    T: "\<forall>e. furthest_floor_elevator h w e = Inr (e\<lparr>target_floor := T e\<rparr>)" ..
  have "map_r (furthest_floor_elevator h w) es
         = Inr (map (\<lambda>e. e\<lparr>target_floor := T e\<rparr>) es)"
    by (rule map_r_total) (simp add: T)
  with T show ?thesis by blast
qed

lemma end_to_end_elevator_frame:
  "capacity (end_to_end_elevator m e) = capacity e"
  "current_floor (end_to_end_elevator m e) = current_floor e"
  "passengers (end_to_end_elevator m e) = passengers e"
  by (simp_all add: end_to_end_elevator_def)

lemma update_target_floors_unchanged:
  "\<exists>es'.
      update_target_floors alg (es, w, h) max_floor = Inr (es', w, h)
      \<and> map capacity es' = map capacity es
      \<and> map current_floor es' = map current_floor es
      \<and> map passengers es' = map passengers es"
proof (cases alg)
  case EndToEndLoop
  show ?thesis
    unfolding EndToEndLoop
    by (rule exI [of _ "map (end_to_end_elevator max_floor) es"])
       (simp add: end_to_end_elevator_frame comp_def)
next
  case FurthestFloor
  from furthest_floor_all [of h w es] obtain T where
    T: "map_r (furthest_floor_elevator h w) es
          = Inr (map (\<lambda>e. e\<lparr>target_floor := T e\<rparr>) es)" by blast
  show ?thesis
    unfolding FurthestFloor
    by (rule exI [of _ "map (\<lambda>e. e\<lparr>target_floor := T e\<rparr>) es"])
       (simp add: T bind_r_Inr comp_def)
qed

text \<open>
  Claim C9. For every input, \<open>update_target_floors\<close> of both moving algorithms returns
  without raising, leaves the waiting table and the store of people as they were, and
  changes no elevator's capacity, current floor or passenger list: only \<open>target_floor\<close>
  can differ. The result is a function of the inputs.
\<close>

theorem update_target_floors_frame:
  "\<exists>es'.
      update_target_floors alg (es, w, h) max_floor = Inr (es', w, h)
      \<and> map capacity es' = map capacity es
      \<and> map current_floor es' = map current_floor es
      \<and> map passengers es' = map passengers es"
  by (rule update_target_floors_unchanged)

text \<open>
  What case 2 of \<open>FurthestFloor\<close> does when the keys of the waiting table are in ascending
  order, as they are in a \<open>Simulation\<close>: the first floor at maximal distance in key order
  is then the lowest one, so an idle elevator without passengers gets the lowest of the
  farthest floors with a non-empty waiting list.
\<close>

lemma furthest_floor_no_passengers_sorted:
  assumes "sorted_wrt (<) (map fst w)"
    and "i < length es" and "passengers (es ! i) = []"
  shows "(\<exists>es'.
      update_target_floors FurthestFloor (es, w, h) max_floor
        = Inr (es', w, h)
      \<and> length es' = length es
      \<and> target_floor (es' ! i) =
          (let e = es ! i;
               F = {floor. \<exists>people. (floor, people) \<in> set w \<and> people \<noteq> []}
           in if target_floor e = current_floor e then
                (if F = {} then current_floor e
                 else Min {floor \<in> F.
                        \<forall>g\<in>F. \<bar>g - current_floor e\<bar> \<le> \<bar>floor - current_floor e\<bar>})
              else target_floor e))
    \<and> update_target_floors FurthestFloor
          ([\<lparr>capacity = c, current_floor = 3, target_floor = 3, passengers = []\<rparr>],
           [(1, [a]), (2, []), (3, []), (4, []), (5, [b])], h) 5
        = Inr ([\<lparr>capacity = c, current_floor = 3, target_floor = 1, passengers = []\<rparr>],
               [(1, [a]), (2, []), (3, []), (4, []), (5, [b])], h)"
proof (rule conjI)
  from furthest_floor_all [of h w es] obtain T where
    T: "map_r (furthest_floor_elevator h w) es
          = Inr (map (\<lambda>e. e\<lparr>target_floor := T e\<rparr>) es)"
    and Te: "\<forall>e. furthest_floor_elevator h w e = Inr (e\<lparr>target_floor := T e\<rparr>)"
    by blast
  let ?e = "es ! i"
  let ?F = "{floor. \<exists>people. (floor, people) \<in> set w \<and> people \<noteq> []}"
  let ?t = "if target_floor ?e = current_floor ?e then
                (if ?F = {} then current_floor ?e
                 else Min {floor \<in> ?F.
                        \<forall>g\<in>?F. \<bar>g - current_floor ?e\<bar> \<le> \<bar>floor - current_floor ?e\<bar>})
              else target_floor ?e"
  have "furthest_floor_elevator h w ?e = Inr (?e\<lparr>target_floor := ?t\<rparr>)"
    using furthest_floor_empty_target [OF assms(1) assms(3), of h] by (simp only: Let_def)
  then have "?e\<lparr>target_floor := T ?e\<rparr> = ?e\<lparr>target_floor := ?t\<rparr>"
    using Te by simp
  then have "target_floor (?e\<lparr>target_floor := T ?e\<rparr>) = target_floor (?e\<lparr>target_floor := ?t\<rparr>)"
    by (rule arg_cong)
  then have tt: "T ?e = ?t" by simp
  have "target_floor (map (\<lambda>e. e\<lparr>target_floor := T e\<rparr>) es ! i) = ?t"
    using assms(2) tt by simp
  then show "\<exists>es'.
      update_target_floors FurthestFloor (es, w, h) max_floor
        = Inr (es', w, h)
      \<and> length es' = length es
      \<and> target_floor (es' ! i) =
          (let e = es ! i;
               F = {floor. \<exists>people. (floor, people) \<in> set w \<and> people \<noteq> []}
           in if target_floor e = current_floor e then
                (if F = {} then current_floor e
                 else Min {floor \<in> F.
                        \<forall>g\<in>F. \<bar>g - current_floor e\<bar> \<le> \<bar>floor - current_floor e\<bar>})
              else target_floor e)"
    by (intro exI [of _ "map (\<lambda>e. e\<lparr>target_floor := T e\<rparr>) es"])
       (simp add: T bind_r_Inr Let_def)
next
  show "update_target_floors FurthestFloor
          ([\<lparr>capacity = c, current_floor = 3, target_floor = 3, passengers = []\<rparr>],
           [(1, [a]), (2, []), (3, []), (4, []), (5, [b])], h) 5
        = Inr ([\<lparr>capacity = c, current_floor = 3, target_floor = 1, passengers = []\<rparr>],
               [(1, [a]), (2, []), (3, []), (4, []), (5, [b])], h)"
    by (simp add: furthest_floor_elevator_def furthest_waiting_floor_def bind_r_def py_get_def)
qed

text \<open>
  Claim C5 (a tie between floors with waiting people goes to the lowest floor) fails on
  the code in the same way as claim C1: \<open>note\<close> holds \<open>dist.index(d)\<close>, the first position
  of the maximum, so \<open>list_floor\<close> repeats the first farthest floor in the key order of
  \<open>waiting\<close> and \<open>min\<close> has nothing to choose from (lemma
  \<open>furthest_waiting_floor_first\<close>). An idle elevator without passengers at floor 3, called
  with a waiting table whose keys are 5, 4, 3, 2, 1 and people waiting at floors 5 and 1,
  gets target floor 5.
\<close>

theorem furthest_floor_tie_first_key:
  "update_target_floors FurthestFloor
     ([\<lparr>capacity = 2, current_floor = 3, target_floor = 3, passengers = []\<rparr>],
      [(5, [0]), (4, []), (3, []), (2, []), (1, [1])],
      (\<lambda>a. Person 1 2)(0 := Person 5 1, 1 := Person 1 4)) 5
   = Inr ([\<lparr>capacity = 2, current_floor = 3, target_floor = 5, passengers = []\<rparr>],
          [(5, [0]), (4, []), (3, []), (2, []), (1, [1])],
          (\<lambda>a. Person 1 2)(0 := Person 5 1, 1 := Person 1 4))"
  by (simp add: furthest_floor_elevator_def furthest_waiting_floor_def bind_r_def py_get_def)

text \<open>
  Claim C1 (a tie between passenger targets goes to the lowest floor) fails on the code.
  Every entry of \<open>note\<close> is \<open>dist.index(d)\<close>, the first position of the maximum, so
  \<open>list_floor\<close> repeats the target of the first passenger at maximal distance and \<open>min\<close>
  has nothing to choose from (lemma \<open>furthest_passenger_target_first\<close>). An elevator at
  floor 3 whose passengers want floors 5 and 1, in this order, gets target floor 5.
\<close>

theorem furthest_floor_tie_first_passenger:
  "update_target_floors FurthestFloor
     ([\<lparr>capacity = 2, current_floor = 3, target_floor = 3, passengers = [0, 1]\<rparr>],
      [(1, []), (2, []), (3, []), (4, []), (5, [])],
      (\<lambda>a. Person 1 2)(0 := Person 3 5, 1 := Person 3 1)) 5
   = Inr ([\<lparr>capacity = 2, current_floor = 3, target_floor = 5, passengers = [0, 1]\<rparr>],
          [(1, []), (2, []), (3, []), (4, []), (5, [])],
          (\<lambda>a. Person 1 2)(0 := Person 3 5, 1 := Person 3 1))"
  by (simp add: furthest_floor_elevator_def furthest_passenger_target_def bind_r_def
      py_get_def Person_def)

section \<open>Properties of the statistics\<close>

lemma trunc_mean:
  assumes "0 < b"
  shows "sgn a * sgn b * (\<bar>a\<bar> div \<bar>b\<bar>)
           = (let m = real_of_int a / real_of_int b in if 0 \<le> m then \<lfloor>m\<rfloor> else \<lceil>m\<rceil>)"
proof (cases "0 \<le> a")
  case True
  then have m: "0 \<le> real_of_int a / real_of_int b" using assms by simp
  have "sgn a * sgn b * (\<bar>a\<bar> div \<bar>b\<bar>) = a div b"
    using True assms by (cases "a = 0") (simp_all add: sgn_if)
  also have "\<dots> = \<lfloor>real_of_int a / real_of_int b\<rfloor>"
    by (simp add: floor_divide_of_int_eq)
  finally show ?thesis using m by (simp add: Let_def)
next
  case False
  then have neg: "a < 0" by simp
  then have m: "\<not> 0 \<le> real_of_int a / real_of_int b"
    using assms by (simp add: divide_less_0_iff not_le)
  have "sgn a * sgn b * (\<bar>a\<bar> div \<bar>b\<bar>) = - ((- a) div b)"
    using neg assms by (simp add: sgn_if)
  also have "\<dots> = - \<lfloor>real_of_int (- a) / real_of_int b\<rfloor>"
    by (simp only: floor_divide_of_int_eq)
  also have "\<dots> = \<lceil>real_of_int a / real_of_int b\<rceil>"
    by (simp add: ceiling_def)
  finally show ?thesis using m by (simp add: Let_def)
qed

lemma calculate_stats_closed:
  "calculate_stats n s = Inr
     [(''num_rounds'', n),
      (''total_people'', int (length (total_people s))),
      (''people_completed'', int (length (reached_dest s))),
      (''max_time'',
         if reached_dest s = [] then - 1
         else Max ((\<lambda>p. wait_time (store s p)) ` set (reached_dest s))),
      (''avg_time'',
         if reached_dest s = [] then - 1
         else (let m = real_of_int (\<Sum>p\<leftarrow>reached_dest s. wait_time (store s p))
                        / real (length (reached_dest s))
               in if 0 \<le> m then \<lfloor>m\<rfloor> else \<lceil>m\<rceil>))]"
proof (cases "reached_dest s = []")
  case True
  then show ?thesis by (simp add: calculate_stats_def bind_r_Inr)
next
  case False
  let ?wt = "map (\<lambda>p. wait_time (store s p)) (reached_dest s)"
  have ne: "?wt \<noteq> []" using False by simp
  have mx: "py_max ?wt = Inr (Max ((\<lambda>p. wait_time (store s p)) ` set (reached_dest s)))"
    using py_max_Max [OF ne] by simp
  let ?sum = "\<Sum>p\<leftarrow>reached_dest s. wait_time (store s p)"
  let ?len = "length (reached_dest s)"
  have pos: "0 < int ?len" using False by simp
  have av: "py_int_truediv ?sum (int ?len) =
      Inr (if 0 \<le> real_of_int ?sum / real ?len
           then \<lfloor>real_of_int ?sum / real ?len\<rfloor> else \<lceil>real_of_int ?sum / real ?len\<rceil>)"
    using pos trunc_mean [OF pos, of ?sum] by (simp add: py_int_truediv_def Let_def)
  have mx': "py_max (map (\<lambda>p. wait_time (store s p)) (reached_dest s))
      = Inr (MAX p\<in>set (reached_dest s). wait_time (store s p))"
    using mx by simp
  have "calculate_stats n s = Inr
     [(''num_rounds'', n),
      (''total_people'', int (length (total_people s))),
      (''people_completed'', int ?len),
      (''max_time'', MAX p\<in>set (reached_dest s). wait_time (store s p)),
      (''avg_time'', if 0 \<le> real_of_int ?sum / real ?len
           then \<lfloor>real_of_int ?sum / real ?len\<rfloor> else \<lceil>real_of_int ?sum / real ?len\<rceil>)]"
    using False unfolding calculate_stats_def Let_def
    by (simp only: length_map list.size(3) length_0_conv if_False mx' av bind_r_Inr
        prod.case)
  then show ?thesis using False by (simp only: Let_def if_False)
qed

section \<open>Properties of the boarding stage\<close>

lemma fold_r_py_remove_filter:
  "(\<And>z. z \<in> set zs \<Longrightarrow> \<not> P z) \<Longrightarrow>
     fold_r py_remove (filter P xs) (zs @ xs) = Inr (zs @ filter (\<lambda>x. \<not> P x) xs)"
proof (induction xs arbitrary: zs)
  case Nil
  then show ?case by simp
next
  case (Cons x xs)
  show ?case
  proof (cases "P x")
    case True
    then have "x \<notin> set zs" using Cons.prems by blast
    then have step: "py_remove x (zs @ x # xs) = Inr (zs @ xs)"
      by (simp add: py_remove_def remove1_append)
    have ih: "fold_r py_remove (filter P xs) (zs @ xs) = Inr (zs @ filter (\<lambda>x. \<not> P x) xs)"
      by (rule Cons.IH) (rule Cons.prems)
    show ?thesis using True by (simp add: step ih bind_r_Inr)
  next
    case False
    then have "\<And>z. z \<in> set (zs @ [x]) \<Longrightarrow> \<not> P z" using Cons.prems by auto
    then have "fold_r py_remove (filter P xs) ((zs @ [x]) @ xs)
        = Inr ((zs @ [x]) @ filter (\<lambda>x. \<not> P x) xs)"
      by (rule Cons.IH)
    then show ?thesis using False by simp
  qed
qed

lemma fold_r_py_remove_mset:
  "mset b \<subseteq># mset xs \<Longrightarrow> fold_r py_remove b xs = Inr (fold remove1 b xs)"
proof (induction b arbitrary: xs)
  case Nil
  then show ?case by simp
next
  case (Cons x b)
  then have x: "x \<in> set xs" and rest: "mset b \<subseteq># mset (remove1 x xs)"
    by (simp_all add: insert_subset_eq_iff)
  show ?case using x Cons.IH [OF rest] by (simp add: py_remove_def bind_r_Inr)
qed

lemma mset_fold_remove1: "mset (fold remove1 b xs) = mset xs - mset b"
  by (induction b arbitrary: xs) simp_all

lemma subseq_remove1: "subseq (remove1 x xs) xs"
  by (induction xs) auto

lemma subseq_fold_remove1: "subseq (fold remove1 b xs) xs"
proof (induction b arbitrary: xs)
  case Nil
  then show ?case by simp
next
  case (Cons x b)
  have "subseq (fold remove1 b (remove1 x xs)) (remove1 x xs)" by (rule Cons.IH)
  then show ?case using subseq_remove1 [of x xs] by (simp add: subseq_order.order_trans)
qed

lemma fold_remove1_distinct:
  "distinct xs \<Longrightarrow> fold remove1 b xs = filter (\<lambda>p. p \<notin> set b) xs"
proof (induction b arbitrary: xs)
  case Nil
  then show ?case by simp
next
  case (Cons x b)
  have "remove1 x xs = filter (\<lambda>p. p \<noteq> x) xs"
    using Cons.prems by (simp add: distinct_remove1_removeAll removeAll_filter_not_eq) metis
  moreover have "distinct (remove1 x xs)" using Cons.prems by simp
  ultimately show ?case using Cons.IH [of "remove1 x xs"] by (simp add: conj_commute)
qed

lemma direction_ok_passengers [simp]:
  "direction_ok h key (e\<lparr>passengers := ps\<rparr>) = direction_ok h key e"
  by (rule ext) (simp add: direction_ok_def)

lemma fold_board_person:
  "fold (board_person h key) people (e, if b0 = [] then [] else [(key, b0)]) =
     (e\<lparr>passengers := passengers e @ boarders h key e people\<rparr>,
      if b0 @ boarders h key e people = [] then []
      else [(key, b0 @ boarders h key e people)])"
proof (induction people arbitrary: e b0)
  case Nil
  then show ?case by (simp add: boarders_def)
next
  case (Cons p people)
  show ?case
  proof (cases "direction_ok h key e p \<and> int (length (passengers e)) < capacity e")
    case True
    let ?e = "e\<lparr>passengers := passengers e @ [p]\<rparr>"
    have step: "board_person h key p (e, if b0 = [] then [] else [(key, b0)])
        = (?e, if b0 @ [p] = [] then [] else [(key, b0 @ [p])])"
      using True by (simp add: board_person_def dict_append_def dict_set_def)
    have "nat (capacity e - int (length (passengers e)))
        = Suc (nat (capacity ?e - int (length (passengers ?e))))"
      using True by (simp add: nat_diff_distrib) linarith
    then have b: "boarders h key e (p # people) = p # boarders h key ?e people"
      using True by (simp add: boarders_def)
    show ?thesis
      using Cons.IH [of ?e "b0 @ [p]"] by (simp only: fold_simps step b) simp
  next
    case False
    have step: "board_person h key p (e, if b0 = [] then [] else [(key, b0)])
        = (e, if b0 = [] then [] else [(key, b0)])"
      using False by (auto simp: board_person_def)
    have b: "boarders h key e (p # people) = boarders h key e people"
      using False by (auto simp: boarders_def)
    show ?thesis
      using Cons.IH [of e b0] by (simp only: fold_simps step b)
  qed
qed

lemma scan_waiting_fold:
  assumes "distinct (map fst w)"
  shows "fold (\<lambda>(key, people) st.
               if k = key then fold (board_person h key) people st else st) w st
         = (case map_of w k of None \<Rightarrow> st | Some people \<Rightarrow> fold (board_person h k) people st)"
  using assms
proof (induction w arbitrary: st)
  case Nil
  then show ?case by simp
next
  case (Cons a w)
  obtain key people where a: "a = (key, people)" by (cases a)
  show ?case
  proof (cases "k = key")
    case True
    then have "map_of w k = None" using Cons.prems a by (simp add: map_of_eq_None_iff)
    then show ?thesis using True a Cons.IH [of "fold (board_person h key) people st"] Cons.prems
      by simp
  next
    case False
    then show ?thesis using a Cons.IH [of st] Cons.prems by simp
  qed
qed

lemma scan_waiting_closed:
  assumes "distinct (map fst w)"
  shows "scan_waiting h w e =
     (case map_of w (current_floor e) of
        None \<Rightarrow> (e, [])
      | Some people \<Rightarrow>
          (e\<lparr>passengers := passengers e @ boarders h (current_floor e) e people\<rparr>,
           if boarders h (current_floor e) e people = [] then []
           else [(current_floor e, boarders h (current_floor e) e people)]))"
proof -
  have "fold (board_person h key) people (e, []) =
     (e\<lparr>passengers := passengers e @ boarders h key e people\<rparr>,
      if boarders h key e people = [] then [] else [(key, boarders h key e people)])"
    for key people
    using fold_board_person [of h key people e "[]"] by simp
  then show ?thesis
    unfolding scan_waiting_def scan_waiting_fold [OF assms]
    by (simp split: option.splits)
qed

lemma fold_r_remove_waiting:
  assumes "map_of w f = Some l" and "mset b \<subseteq># mset l"
  shows "fold_r (remove_waiting f) b w = Inr (AList.update f (fold remove1 b l) w)"
  using assms
proof (induction b arbitrary: w l)
  case Nil
  then show ?case by (simp add: update_triv)
next
  case (Cons x b)
  then have x: "x \<in> set l" and rest: "mset b \<subseteq># mset (remove1 x l)"
    by (simp_all add: insert_subset_eq_iff)
  have step: "remove_waiting f x w = Inr (AList.update f (remove1 x l) w)"
    using Cons.prems(1) x
    by (simp add: remove_waiting_def dict_get_def dict_set_def py_remove_def bind_r_Inr)
  have "map_of (AList.update f (remove1 x l) w) f = Some (remove1 x l)"
    by (simp add: update_conv')
  from Cons.IH [OF this rest] show ?case
    by (simp add: step bind_r_Inr)
qed

lemma boarders_mset: "mset (boarders h key e people) \<subseteq># mset people"
proof -
  have "mset (take n xs) \<subseteq># mset xs" for n and xs :: "addr list"
    by (metis append_take_drop_id mset_append mset_subset_eq_add_left)
  then have "mset (boarders h key e people) \<subseteq># mset (filter (direction_ok h key e) people)"
    by (simp only: boarders_def)
  also have "\<dots> \<subseteq># mset people" by simp
  finally show ?thesis .
qed

lemma board_elevator_closed:
  assumes "distinct (map fst w)"
  shows "board_elevator h w e =
     (case map_of w (current_floor e) of
        None \<Rightarrow> Inr (e, w)
      | Some people \<Rightarrow>
          Inr (e\<lparr>passengers := passengers e @ boarders h (current_floor e) e people\<rparr>,
               AList.update (current_floor e)
                 (fold remove1 (boarders h (current_floor e) e people) people) w))"
proof (cases "map_of w (current_floor e)")
  case None
  then show ?thesis
    by (simp add: board_elevator_def scan_waiting_closed [OF assms] remove_boarded_def
        bind_r_Inr)
next
  case (Some people)
  let ?b = "boarders h (current_floor e) e people"
  show ?thesis
  proof (cases "?b = []")
    case True
    then show ?thesis using Some
      by (simp add: board_elevator_def scan_waiting_closed [OF assms] remove_boarded_def
          bind_r_Inr update_triv)
  next
    case False
    have "fold_r (remove_waiting (current_floor e)) ?b w
        = Inr (AList.update (current_floor e) (fold remove1 ?b people) w)"
      using Some boarders_mset by (rule fold_r_remove_waiting)
    then show ?thesis using Some False
      by (simp add: board_elevator_def scan_waiting_closed [OF assms] remove_boarded_def
          bind_r_Inr)
  qed
qed

section \<open>The capacity invariant\<close>

lemma bind_r_eq_Inr:
  "bind_r m f = Inr y \<longleftrightarrow> (\<exists>x. m = Inr x \<and> f x = Inr y)"
  by (cases m) (simp_all add: bind_r_def)

lemma disembark_elevator_closed:
  "disembark_elevator h e reached =
     Inr (e\<lparr>passengers := filter (\<lambda>p. current_floor e \<noteq> target (h p)) (passengers e)\<rparr>,
          reached @ filter (\<lambda>p. current_floor e = target (h p)) (passengers e))"
  using fold_r_py_remove_filter [of "[]" "\<lambda>p. current_floor e = target (h p)" "passengers e"]
  by (simp add: disembark_elevator_def bind_r_Inr)

lemma disembark_all_closed:
  "disembark_all h es reached =
     Inr (map (\<lambda>e. e\<lparr>passengers :=
                      filter (\<lambda>p. current_floor e \<noteq> target (h p)) (passengers e)\<rparr>) es,
          reached @ concat (map (\<lambda>e. filter (\<lambda>p. current_floor e = target (h p))
                                        (passengers e)) es))"
  by (induction es arbitrary: reached) (simp_all add: disembark_elevator_closed bind_r_Inr)

lemma handle_disembarking_closed:
  "handle_disembarking s =
     Inr (s\<lparr>elevators :=
              map (\<lambda>e. e\<lparr>passengers :=
                     filter (\<lambda>p. current_floor e \<noteq> target (store s p)) (passengers e)\<rparr>)
                (elevators s),
            reached_dest :=
              reached_dest s @
              concat (map (\<lambda>e. filter (\<lambda>p. current_floor e = target (store s p))
                                  (passengers e)) (elevators s))\<rparr>)"
  by (simp add: handle_disembarking_def disembark_all_closed bind_r_Inr)

lemma within_capacity_disembark:
  assumes "within_capacity e"
  shows "within_capacity (e\<lparr>passengers := filter P (passengers e)\<rparr>)"
proof -
  have "int (length (filter P (passengers e))) \<le> int (length (passengers e))" by simp
  also have "\<dots> \<le> capacity e" using assms by (simp add: within_capacity_def)
  finally show ?thesis by (simp add: within_capacity_def)
qed

lemma board_person_within:
  "within_capacity (fst st) \<Longrightarrow> within_capacity (fst (board_person h key p st))"
  by (cases st) (auto simp: board_person_def within_capacity_def)

lemma fold_board_person_within:
  "within_capacity (fst st) \<Longrightarrow> within_capacity (fst (fold (board_person h key) people st))"
  by (induction people arbitrary: st) (simp_all add: board_person_within)

lemma scan_fold_within:
  "within_capacity (fst st) \<Longrightarrow>
     within_capacity (fst (fold (\<lambda>(key, people) st.
        if k = key then fold (board_person h key) people st else st) w st))"
proof (induction w arbitrary: st)
  case Nil
  then show ?case by simp
next
  case (Cons a w)
  obtain key people where a: "a = (key, people)" by (cases a)
  show ?case
  proof (cases "k = key")
    case True
    have "within_capacity (fst (fold (board_person h key) people st))"
      using Cons.prems by (rule fold_board_person_within)
    from Cons.IH [OF this] show ?thesis using True a by simp
  next
    case False
    from Cons.IH [OF Cons.prems] show ?thesis using False a by simp
  qed
qed

lemma board_elevator_within:
  assumes "within_capacity e" and "board_elevator h w e = Inr (e', w')"
  shows "within_capacity e'"
proof -
  have "within_capacity (fst (scan_waiting h w e))"
    unfolding scan_waiting_def by (rule scan_fold_within) (simp add: assms(1))
  moreover have "e' = fst (scan_waiting h w e)"
    using assms(2) by (auto simp: board_elevator_def bind_r_eq_Inr split: prod.splits)
  ultimately show ?thesis by simp
qed

lemma board_all_within:
  assumes "list_all within_capacity es" and "board_all h es w = Inr (es', w')"
  shows "list_all within_capacity es'"
  using assms
proof (induction es arbitrary: w es' w')
  case Nil
  then show ?case by simp
next
  case (Cons e es)
  from Cons.prems(2) obtain e1 w1 es1 w2 where
    1: "board_elevator h w e = Inr (e1, w1)" and 2: "board_all h es w1 = Inr (es1, w2)"
    and 3: "es' = e1 # es1"
    by (auto simp: bind_r_eq_Inr)
  have "within_capacity e1" using Cons.prems(1) 1 by (auto intro: board_elevator_within)
  moreover have "list_all within_capacity es1"
    using Cons.prems(1) 2 by (auto intro: Cons.IH)
  ultimately show ?case using 3 by simp
qed

lemma move_elevator_within: "within_capacity (move_elevator e) = within_capacity e"
  by (simp add: move_elevator_def within_capacity_def)

lemma frame_within:
  assumes "map capacity es' = map capacity es" and "map passengers es' = map passengers es"
  shows "list_all within_capacity es' = list_all within_capacity es"
proof -
  have len: "length es' = length es" using assms(1) by (rule map_eq_imp_length_eq)
  have "within_capacity (es' ! i) = within_capacity (es ! i)" if "i < length es" for i
  proof -
    have "capacity (es' ! i) = capacity (es ! i)"
      using assms(1) that len by (metis nth_map)
    moreover have "passengers (es' ! i) = passengers (es ! i)"
      using assms(2) that len by (metis nth_map)
    ultimately show ?thesis by (simp add: within_capacity_def)
  qed
  then show ?thesis using len by (simp add: list_all_length)
qed

lemma move_elevators_within:
  assumes "list_all within_capacity (elevators s)" and "move_elevators s = Inr s'"
  shows "list_all within_capacity (elevators s')"
proof -
  from update_target_floors_unchanged [of "moving_algorithm s" "elevators s" "waiting s" "store s"
      "num_floors s"]
  obtain es where u: "update_target_floors (moving_algorithm s)
        (elevators s, waiting s, store s) (num_floors s) = Inr (es, waiting s, store s)"
    and c: "map capacity es = map capacity (elevators s)"
    and p: "map passengers es = map passengers (elevators s)" by blast
  have "elevators s' = map move_elevator es"
    using assms(2) by (auto simp: move_elevators_def u bind_r_Inr)
  moreover have "list_all within_capacity es"
    using frame_within [OF c p] assms(1) by simp
  ultimately show ?thesis by (simp add: list_all_iff move_elevator_within)
qed

lemma generate_arrivals_elevators:
  "generate_arrivals i s = Inr s' \<Longrightarrow> elevators s' = elevators s"
  by (auto simp: generate_arrivals_def bind_r_eq_Inr split: prod.splits)

lemma reachable_within_capacity:
  "reachable s \<Longrightarrow> list_all within_capacity (elevators s)"
proof (induction rule: reachable.induct)
  case (constructed cfg h n)
  then show ?case
    by (simp add: Simulation_def Elevator_def within_capacity_def valid_config_def list_all_iff)
next
  case (disembarked s s')
  then show ?case
    by (auto simp: handle_disembarking_closed list_all_iff within_capacity_disembark)
next
  case (arrived s i s')
  then show ?case by (simp add: generate_arrivals_elevators)
next
  case (boarded s s')
  from boarded.hyps(2) obtain es w where
    "board_all (store s) (elevators s) (waiting s) = Inr (es, w)" "elevators s' = es"
    by (auto simp: handle_boarding_def bind_r_eq_Inr)
  then show ?case using boarded.IH by (auto intro: board_all_within)
next
  case (moved s s')
  then show ?case by (auto intro: move_elevators_within)
next
  case (ticked s)
  then show ?case by (simp add: update_wait_times_def)
qed

text \<open>
  Claim C3. In every reachable state, that is after every stage of every round of a
  simulation constructed from a valid configuration (capacity at least 1), every elevator
  holds at most \<open>capacity\<close> passengers.
\<close>

theorem capacity_never_exceeded:
  "reachable s \<Longrightarrow> \<forall>e\<in>set (elevators s). int (length (passengers e)) \<le> capacity e"
  using reachable_within_capacity [of s] by (simp add: list_all_iff within_capacity_def)

lemma reachable_sim_round:
  assumes "reachable s" and "sim_round i s = Inr s'"
  shows "reachable s'"
proof -
  from assms(2) obtain s1 s2 s3 s4 where
    1: "handle_disembarking s = Inr s1" and 2: "generate_arrivals i s1 = Inr s2"
    and 3: "handle_boarding s2 = Inr s3" and 4: "move_elevators s3 = Inr s4"
    and 5: "s' = update_wait_times s4"
    by (auto simp: sim_round_def bind_r_eq_Inr)
  have "reachable s1" using assms(1) 1 by (rule reachable.disembarked)
  then have "reachable s2" using 2 by (rule reachable.arrived)
  then have "reachable s3" using 3 by (rule reachable.boarded)
  then have "reachable s4" using 4 by (rule reachable.moved)
  then show ?thesis unfolding 5 by (rule reachable.ticked)
qed

lemma reachable_rounds:
  "reachable s \<Longrightarrow> fold_r sim_round rs s = Inr s' \<Longrightarrow> reachable s'"
proof (induction rs arbitrary: s)
  case Nil
  then show ?case by simp
next
  case (Cons r rs)
  from Cons.prems(2) obtain s1 where "sim_round r s = Inr s1" "fold_r sim_round rs s1 = Inr s'"
    by (auto simp: bind_r_eq_Inr)
  then show ?case using Cons.prems(1) Cons.IH reachable_sim_round by blast
qed

lemma reachable_run:
  "reachable s \<Longrightarrow> run n s = Inr (stats, s') \<Longrightarrow> reachable s'"
  by (auto simp: run_def bind_r_eq_Inr intro: reachable_rounds)

lemma not_isl_Inr: "\<not> isl x \<Longrightarrow> \<exists>y. x = Inr y"
  by (cases x) simp_all

lemma example_boarded_reachable: "\<exists>s. example_boarded = Inr s \<and> reachable s"
proof -
  have "\<not> isl example_boarded" by code_simp
  from not_isl_Inr [OF this] obtain s where s: "example_boarded = Inr s" ..
  then obtain s0 s1 s2 where
    0: "fold_r sim_round [0..9] example_simulation = Inr s0"
    and 1: "handle_disembarking s0 = Inr s1"
    and 2: "generate_arrivals 10 s1 = Inr s2"
    and 3: "handle_boarding s2 = Inr s"
    unfolding example_boarded_def bind_r_eq_Inr by blast
  have "valid_config example_config" by (simp add: valid_config_def example_config_def)
  then have "reachable example_simulation"
    unfolding example_simulation_def by (rule reachable.constructed)
  then have "reachable s0" using 0 by (rule reachable_rounds)
  then have "reachable s1" using 1 by (rule reachable.disembarked)
  then have "reachable s2" using 2 by (rule reachable.arrived)
  then have "reachable s" using 3 by (rule reachable.boarded)
  with s show ?thesis by blast
qed

theorem capacity_never_exceeded_witness:
  "reachable (projr example_boarded)
   \<and> list_all (\<lambda>e. int (length (passengers e)) \<le> capacity e) (elevators (projr example_boarded))
   \<and> map (\<lambda>e. (passengers e, capacity e)) (elevators (projr example_boarded))
       = [([1, 2], 2), ([3, 4], 2)]
   \<and> map_of (waiting (projr example_boarded)) 1 = Some [5, 6, 7, 8, 9, 10]"
proof -
  from example_boarded_reachable obtain s where s: "example_boarded = Inr s" "reachable s"
    by blast
  have "projr example_boarded = s" by (simp add: s(1))
  with s(2) have r: "reachable (projr example_boarded)" by simp
  have "list_all (\<lambda>e. int (length (passengers e)) \<le> capacity e) (elevators (projr example_boarded))"
    using capacity_never_exceeded [OF r] by (simp add: list_all_iff)
  moreover have "map (\<lambda>e. (passengers e, capacity e)) (elevators (projr example_boarded))
       = [([1, 2], 2), ([3, 4], 2)]" by code_simp
  moreover have "map_of (waiting (projr example_boarded)) 1 = Some [5, 6, 7, 8, 9, 10]"
    by code_simp
  ultimately show ?thesis using r by blast
qed

section \<open>The statistics of a run\<close>

text \<open>
  Claim C7. When \<open>run(num_rounds)\<close> returns, it has executed the rounds
  \<open>0, ..., num_rounds - 1\<close>, and the statistics are the mapping with exactly the keys
  \<open>num_rounds\<close>, \<open>total_people\<close>, \<open>people_completed\<close>, \<open>max_time\<close>, \<open>avg_time\<close>:
  the number of rounds run, the number of people in \<open>total_people\<close>, the number of people
  in \<open>reached_dest\<close>, the maximal waiting time among the completed people and their mean
  waiting time truncated to an integer, both - 1 when nobody has completed. The hypothesis on
  the sum of the waiting times is the range in which \<open>int(sum_ / len(wait_times))\<close> is exact.
\<close>

theorem run_statistics:
  assumes "1 \<le> n" and "run n s = Inr (stats, s')"
    and "\<bar>\<Sum>p\<leftarrow>reached_dest s'. wait_time (store s' p)\<bar> < 2 ^ 53"
  shows "fold_r sim_round [0..n - 1] s = Inr s' \<and> int (length [0..n - 1]) = n
    \<and> stats =
     [(''num_rounds'', n),
      (''total_people'', int (length (total_people s'))),
      (''people_completed'', int (length (reached_dest s'))),
      (''max_time'',
         if reached_dest s' = [] then - 1
         else Max ((\<lambda>p. wait_time (store s' p)) ` set (reached_dest s'))),
      (''avg_time'',
         if reached_dest s' = [] then - 1
         else (let m = real_of_int (\<Sum>p\<leftarrow>reached_dest s'. wait_time (store s' p))
                        / real (length (reached_dest s'))
               in if 0 \<le> m then \<lfloor>m\<rfloor> else \<lceil>m\<rceil>))]"
proof -
  from assms(2) obtain s1 where f: "fold_r sim_round [0..n - 1] s = Inr s1"
    by (cases "fold_r sim_round [0..n - 1] s") (simp_all add: run_def bind_r_def)
  from assms(2) f obtain st where c: "calculate_stats n s1 = Inr st"
    by (cases "calculate_stats n s1") (simp_all add: run_def bind_r_def)
  from assms(2) f c have eq: "st = stats" "s1 = s'" by (simp_all add: run_def bind_r_def)
  have len: "int (length [0..n - 1]) = n" using assms(1) by simp
  show ?thesis
    using f c len calculate_stats_closed [of n s'] unfolding eq by simp
qed

theorem run_statistics_witness:
  "(1::int) \<le> 14
   \<and> run 14 example_simulation =
       Inr (fst (projr (run 14 example_simulation)), snd (projr (run 14 example_simulation)))
   \<and> \<bar>\<Sum>p\<leftarrow>reached_dest (snd (projr (run 14 example_simulation))).
          wait_time (store (snd (projr (run 14 example_simulation))) p)\<bar> < 2 ^ 53
   \<and> fold_r sim_round [0..14 - 1] example_simulation
       = Inr (snd (projr (run 14 example_simulation)))
   \<and> fst (projr (run 14 example_simulation)) =
       [(''num_rounds'', 14), (''total_people'', 14), (''people_completed'', 3),
        (''max_time'', 11), (''avg_time'', 7)]"
proof -
  let ?r = "run 14 example_simulation"
  have "\<not> isl ?r" by code_simp
  from not_isl_Inr [OF this] obtain y where y: "?r = Inr y" ..
  then have h2: "?r = Inr (fst (projr ?r), snd (projr ?r))" by simp
  have h3: "\<bar>\<Sum>p\<leftarrow>reached_dest (snd (projr ?r)). wait_time (store (snd (projr ?r)) p)\<bar>
      < 2 ^ 53" by code_simp
  have h1: "(1::int) \<le> 14" by simp
  have v: "fst (projr ?r) =
       [(''num_rounds'', 14), (''total_people'', 14), (''people_completed'', 3),
        (''max_time'', 11), (''avg_time'', 7)]" by code_simp
  from run_statistics [OF h1 h2 h3]
  have "fold_r sim_round [0..14 - 1] example_simulation = Inr (snd (projr ?r))" by blast
  with h1 h2 h3 v show ?thesis by blast
qed

section \<open>The boarding rule\<close>

lemma nth_in_take_filter:
  assumes "distinct xs" and "i < length xs"
  shows "xs ! i \<in> set (take m (filter P xs)) \<longleftrightarrow>
           P (xs ! i) \<and> length (filter P (take i xs)) < m"
proof -
  let ?A = "take i xs" and ?x = "xs ! i" and ?B = "drop (Suc i) xs"
  have xs: "xs = ?A @ ?x # ?B" using assms(2) by (rule id_take_nth_drop)
  have "distinct (?A @ ?x # ?B)" using assms(1) xs by simp
  then have notA: "?x \<notin> set ?A" by simp
  show ?thesis
  proof (cases "P ?x")
    case False
    have "?x \<notin> set (filter P xs)" using False by simp
    then have "?x \<notin> set (take m (filter P xs))" using set_take_subset by fastforce
    then show ?thesis using False by simp
  next
    case True
    have f: "filter P xs = filter P ?A @ ?x # filter P ?B"
      using True by (subst xs) simp
    show ?thesis
    proof (cases "length (filter P ?A) < m")
      case lt: True
      then obtain d where d: "m - length (filter P ?A) = Suc d"
        by (cases "m - length (filter P ?A)") simp_all
      have "take m (filter P xs) = filter P ?A @ ?x # take d (filter P ?B)"
        using lt by (simp add: f d)
      then show ?thesis using True lt by simp
    next
      case ge: False
      then have "take m (filter P xs) = take m (filter P ?A)" by (simp add: f)
      moreover have "?x \<notin> set (take m (filter P ?A))"
        using notA set_take_subset [of m "filter P ?A"] by auto
      ultimately show ?thesis using ge by simp
    qed
  qed
qed

lemma fold_board_person_prefix:
  "fst (fold (board_person h key) people (e, []))
     = e\<lparr>passengers := passengers e @ boarders h key e people\<rparr>"
  using fold_board_person [of h key people e "[]"] by simp

lemma room_at_moment:
  "int (length (passengers e) + length (boarders h key e people)) < capacity e \<longleftrightarrow>
     length (filter (direction_ok h key e) people)
       < nat (capacity e - int (length (passengers e)))"
  unfolding boarders_def by (simp add: min_def) linarith

lemma boarders_subseq: "subseq (boarders h key e people) people"
proof -
  have "subseq (take n xs) xs" for n and xs :: "addr list"
    by (metis append_take_drop_id list_emb_append2 subseq_order.order_refl append_Nil2
        list_emb_append_mono list_emb_Nil)
  then have "subseq (boarders h key e people) (filter (direction_ok h key e) people)"
    by (simp only: boarders_def)
  then show ?thesis using subseq_filter_left subseq_order.order_trans by blast
qed

lemma fold_remove1_take: "fold remove1 (take m xs) xs = drop m xs"
proof (induction xs arbitrary: m)
  case Nil
  then show ?case by simp
next
  case (Cons x xs)
  then show ?case by (cases m) simp_all
qed

lemma sim_round_stages:
  "sim_round i s = Inr s' \<longleftrightarrow>
     (\<exists>s1 s2 s3 s4. handle_disembarking s = Inr s1 \<and> generate_arrivals i s1 = Inr s2
        \<and> handle_boarding s2 = Inr s3 \<and> move_elevators s3 = Inr s4
        \<and> s' = update_wait_times s4)"
  by (auto simp: sim_round_def bind_r_eq_Inr)

text \<open>
  The turn of one elevator \<open>e\<close> in the Board stage, on the waiting list \<open>people\<close> of the
  floor it is at: what the loop body of \<open>handle_boarding\<close> does.
\<close>

lemma boarding_rule_elevator:
  assumes "distinct (map fst w)" and "map_of w (current_floor e) = Some people"
    and "distinct people"
  shows "board_elevator h w e =
           Inr (e\<lparr>passengers := passengers e @ boarders h (current_floor e) e people\<rparr>,
                AList.update (current_floor e)
                  (filter (\<lambda>p. p \<notin> set (boarders h (current_floor e) e people)) people) w)
    \<and> subseq (boarders h (current_floor e) e people) people
    \<and> (\<forall>i<length people.
          people ! i \<in> set (boarders h (current_floor e) e people) \<longleftrightarrow>
            int (length (passengers
                  (fst (fold (board_person h (current_floor e)) (take i people) (e, [])))))
              < capacity e
            \<and> ((current_floor e > target (h (people ! i)) \<and> target_floor e \<le> current_floor e)
               \<or> (current_floor e < target (h (people ! i))
                   \<and> target_floor e \<ge> current_floor e)))
    \<and> (\<forall>p\<in>set (boarders h (current_floor e) e people).
          current_floor e < target (h p) \<longrightarrow> \<not> target_floor e < current_floor e)"
proof (intro conjI allI impI ballI)
  let ?k = "current_floor e"
  let ?b = "boarders h ?k e people"
  have "fold remove1 ?b people = filter (\<lambda>p. p \<notin> set ?b) people"
    using assms(3) by (rule fold_remove1_distinct)
  then show "board_elevator h w e =
           Inr (e\<lparr>passengers := passengers e @ ?b\<rparr>,
                AList.update ?k (filter (\<lambda>p. p \<notin> set ?b) people) w)"
    using board_elevator_closed [OF assms(1), of h e] assms(2) by simp
  show "subseq ?b people" by (rule boarders_subseq)
  show "people ! i \<in> set ?b \<longleftrightarrow>
            int (length (passengers (fst (fold (board_person h ?k) (take i people) (e, [])))))
              < capacity e
            \<and> ((?k > target (h (people ! i)) \<and> target_floor e \<le> ?k)
               \<or> (?k < target (h (people ! i)) \<and> target_floor e \<ge> ?k))"
    if i: "i < length people" for i
  proof -
    have "people ! i \<in> set ?b \<longleftrightarrow>
        direction_ok h ?k e (people ! i)
        \<and> length (filter (direction_ok h ?k e) (take i people))
             < nat (capacity e - int (length (passengers e)))"
      unfolding boarders_def using assms(3) i by (rule nth_in_take_filter)
    also have "\<dots> \<longleftrightarrow>
        direction_ok h ?k e (people ! i)
        \<and> int (length (passengers e) + length (boarders h ?k e (take i people))) < capacity e"
      by (simp only: room_at_moment)
    finally show ?thesis
      by (simp add: fold_board_person_prefix direction_ok_def conj_commute)
  qed
  show "\<not> target_floor e < ?k" if "p \<in> set ?b" and "?k < target (h p)" for p
  proof -
    have "p \<in> set (filter (direction_ok h ?k e) people)"
      using that(1) unfolding boarders_def by (rule in_set_takeD)
    then have "direction_ok h ?k e p" by simp
    then show ?thesis using that(2) by (auto simp: direction_ok_def)
  qed
qed

text \<open>The turn of an elevator that is idle at floor \<open>f\<close>.\<close>

lemma idle_elevator_turn:
  assumes "distinct (map fst w)" and "map_of w f = Some people"
    and "current_floor e = f" and "target_floor e = f"
    and "\<forall>p\<in>set people. target (h p) \<noteq> f"
  shows "(\<forall>p\<in>set people.
            (f > target (h p) \<and> target_floor e \<le> f) \<or> (f < target (h p) \<and> target_floor e \<ge> f))
    \<and> board_elevator h w e =
          Inr (e\<lparr>passengers := passengers e
                   @ take (nat (capacity e - int (length (passengers e)))) people\<rparr>,
               AList.update f
                 (drop (nat (capacity e - int (length (passengers e)))) people) w)
    \<and> (\<forall>i s s'. sim_round i s = Inr s' \<longrightarrow>
          (\<exists>s1 s2 s3 s4. handle_disembarking s = Inr s1 \<and> generate_arrivals i s1 = Inr s2
             \<and> handle_boarding s2 = Inr s3 \<and> move_elevators s3 = Inr s4
             \<and> s' = update_wait_times s4))"
proof (intro conjI)
  show ok: "\<forall>p\<in>set people.
      (f > target (h p) \<and> target_floor e \<le> f) \<or> (f < target (h p) \<and> target_floor e \<ge> f)"
    using assms(4,5) by auto
  then have "filter (direction_ok h f e) people = people"
    by (simp add: direction_ok_def)
  then have "boarders h f e people
      = take (nat (capacity e - int (length (passengers e)))) people"
    by (simp add: boarders_def)
  then show "board_elevator h w e =
          Inr (e\<lparr>passengers := passengers e
                   @ take (nat (capacity e - int (length (passengers e)))) people\<rparr>,
               AList.update f
                 (drop (nat (capacity e - int (length (passengers e)))) people) w)"
    using board_elevator_closed [OF assms(1), of h e] assms(2,3)
    by (simp add: fold_remove1_take)
  show "\<forall>i s s'. sim_round i s = Inr s' \<longrightarrow>
          (\<exists>s1 s2 s3 s4. handle_disembarking s = Inr s1 \<and> generate_arrivals i s1 = Inr s2
             \<and> handle_boarding s2 = Inr s3 \<and> move_elevators s3 = Inr s4
             \<and> s' = update_wait_times s4)"
    using sim_round_stages by blast
qed

section \<open>Calling run a second time\<close>

lemma update_keys_present:
  "k \<in> set (map fst al) \<Longrightarrow> map fst (AList.update k v al) = map fst al"
  by (simp add: update_keys)

lemma board_all_total:
  assumes "distinct (map fst w)"
  shows "\<exists>es' w'. board_all h es w = Inr (es', w') \<and> map fst w' = map fst w"
  using assms
proof (induction es arbitrary: w)
  case Nil
  then show ?case by simp
next
  case (Cons e es)
  obtain e1 w1 where 1: "board_elevator h w e = Inr (e1, w1)" and k: "map fst w1 = map fst w"
  proof (cases "map_of w (current_floor e)")
    case None
    then have "board_elevator h w e = Inr (e, w)"
      using board_elevator_closed [OF Cons.prems, of h e] by simp
    then show ?thesis using that by blast
  next
    case (Some people)
    let ?w1 = "AList.update (current_floor e)
                 (fold remove1 (boarders h (current_floor e) e people) people) w"
    have "board_elevator h w e =
        Inr (e\<lparr>passengers := passengers e @ boarders h (current_floor e) e people\<rparr>, ?w1)"
      using board_elevator_closed [OF Cons.prems, of h e] Some by simp
    moreover have "current_floor e \<in> set (map fst w)"
      using map_of_SomeD [OF Some] by force
    then have "map fst ?w1 = map fst w" by (rule update_keys_present)
    ultimately show ?thesis using that by blast
  qed
  have "distinct (map fst w1)" using k Cons.prems by simp
  from Cons.IH [OF this] obtain es2 w2 where
    2: "board_all h es w1 = Inr (es2, w2)" and k2: "map fst w2 = map fst w1" by blast
  have "board_all h (e # es) w = Inr (e1 # es2, w2)"
    by (simp add: 1 2 bind_r_Inr)
  then show ?case using k k2 by simp
qed

lemma generate_arrivals_single:
  assumes "single_ready mf s" and "mf \<noteq> 1"
  shows "\<exists>s'. generate_arrivals i s = Inr s' \<and> single_ready mf s'
           \<and> length (total_people s') = Suc (length (total_people s))"
proof -
  from assms(1) have g: "arrival_generator s = SingleArrivals mf"
    and d: "distinct (map fst (waiting s))" and one: "1 \<in> set (map fst (waiting s))"
    by (simp_all add: single_ready_def)
  from one obtain l where l: "map_of (waiting s) 1 = Some l"
    by (cases "map_of (waiting s) 1") (simp_all add: map_of_eq_None_iff)
  let ?h = "(store s)(next_addr s := Person 1 (i mod (mf - 1) + 2))"
  have gen: "generate (arrival_generator s) i (store s, next_addr s)
      = Inr ([(1, [next_addr s])], SingleArrivals mf, ?h, Suc (next_addr s))"
    using assms(2) by (simp add: g group_by_start_single Person_def Let_def)
  let ?w = "AList.update 1 (l @ [next_addr s]) (waiting s)"
  have add: "fold_r add_arrivals [(1, [next_addr s])] (waiting s, total_people s)
      = Inr (?w, total_people s @ [next_addr s])"
    by (simp add: add_arrivals_def dict_get_def dict_set_def l bind_r_Inr)
  let ?s' = "s\<lparr>arrival_generator := SingleArrivals mf, waiting := ?w,
               total_people := total_people s @ [next_addr s], store := ?h,
               next_addr := Suc (next_addr s)\<rparr>"
  have "generate_arrivals i s = Inr ?s'"
    unfolding generate_arrivals_def by (simp only: gen add bind_r_Inr prod.case)
  moreover have "map fst ?w = map fst (waiting s)"
    using one by (rule update_keys_present)
  then have "single_ready mf ?s'" using d one by (simp add: single_ready_def)
  ultimately show ?thesis by (intro exI [of _ ?s']) simp
qed

lemma handle_boarding_single:
  assumes "single_ready mf s"
  shows "\<exists>s'. handle_boarding s = Inr s' \<and> single_ready mf s'
           \<and> total_people s' = total_people s"
proof -
  from assms have d: "distinct (map fst (waiting s))" by (simp add: single_ready_def)
  from board_all_total [OF d, of "store s" "elevators s"] obtain es w where
    b: "board_all (store s) (elevators s) (waiting s) = Inr (es, w)"
    and k: "map fst w = map fst (waiting s)" by blast
  have "handle_boarding s = Inr (s\<lparr>elevators := es, waiting := w\<rparr>)"
    by (simp add: handle_boarding_def b bind_r_Inr)
  moreover have "single_ready mf (s\<lparr>elevators := es, waiting := w\<rparr>)"
    using assms k by (simp add: single_ready_def)
  ultimately show ?thesis by (intro exI [of _ "s\<lparr>elevators := es, waiting := w\<rparr>"]) simp
qed

lemma move_elevators_single:
  assumes "single_ready mf s"
  shows "\<exists>s'. move_elevators s = Inr s' \<and> single_ready mf s'
           \<and> total_people s' = total_people s"
proof -
  from update_target_floors_unchanged [of "moving_algorithm s" "elevators s" "waiting s" "store s"
      "num_floors s"]
  obtain es where u: "update_target_floors (moving_algorithm s)
        (elevators s, waiting s, store s) (num_floors s) = Inr (es, waiting s, store s)"
    by blast
  let ?s' = "s\<lparr>elevators := map move_elevator es, waiting := waiting s, store := store s\<rparr>"
  have "move_elevators s = Inr ?s'"
    by (simp add: move_elevators_def u bind_r_Inr)
  moreover have "single_ready mf ?s'" using assms by (simp add: single_ready_def)
  ultimately show ?thesis by (intro exI [of _ ?s']) simp
qed

lemma sim_round_single:
  assumes "single_ready mf s" and "mf \<noteq> 1"
  shows "\<exists>s'. sim_round i s = Inr s' \<and> single_ready mf s'
           \<and> length (total_people s') = Suc (length (total_people s))"
proof -
  obtain s1 where 1: "handle_disembarking s = Inr s1" and r1: "single_ready mf s1"
    and t1: "total_people s1 = total_people s"
    using assms(1) by (simp add: handle_disembarking_closed single_ready_def)
  from generate_arrivals_single [OF r1 assms(2), of i] obtain s2 where
    2: "generate_arrivals i s1 = Inr s2" and r2: "single_ready mf s2"
    and t2: "length (total_people s2) = Suc (length (total_people s1))" by blast
  from handle_boarding_single [OF r2] obtain s3 where
    3: "handle_boarding s2 = Inr s3" and r3: "single_ready mf s3"
    and t3: "total_people s3 = total_people s2" by blast
  from move_elevators_single [OF r3] obtain s4 where
    4: "move_elevators s3 = Inr s4" and r4: "single_ready mf s4"
    and t4: "total_people s4 = total_people s3" by blast
  have "sim_round i s = Inr (update_wait_times s4)"
    by (simp add: sim_round_def 1 2 3 4 bind_r_Inr)
  moreover have "single_ready mf (update_wait_times s4)"
    using r4 by (simp add: single_ready_def update_wait_times_def)
  moreover have "length (total_people (update_wait_times s4)) = Suc (length (total_people s))"
    using t1 t2 t3 t4 by (simp add: update_wait_times_def)
  ultimately show ?thesis by blast
qed

lemma rounds_single:
  assumes "single_ready mf s" and "mf \<noteq> 1"
  shows "\<exists>s'. fold_r sim_round rs s = Inr s' \<and> single_ready mf s'
           \<and> length (total_people s') = length (total_people s) + length rs"
  using assms(1)
proof (induction rs arbitrary: s)
  case Nil
  then show ?case by simp
next
  case (Cons r rs)
  from sim_round_single [OF Cons.prems assms(2), of r] obtain s1 where
    1: "sim_round r s = Inr s1" and r1: "single_ready mf s1"
    and t1: "length (total_people s1) = Suc (length (total_people s))" by blast
  from Cons.IH [OF r1] obtain s' where
    "fold_r sim_round rs s1 = Inr s'" "single_ready mf s'"
    "length (total_people s') = length (total_people s1) + length rs" by blast
  then show ?case using 1 t1 by (intro exI [of _ s']) (simp add: bind_r_Inr)
qed

lemma run_single:
  assumes "single_ready mf s" and "mf \<noteq> 1" and "0 \<le> n"
  shows "\<exists>stats s'. run n s = Inr (stats, s') \<and> single_ready mf s'
           \<and> map_of stats ''num_rounds'' = Some n
           \<and> map_of stats ''total_people'' = Some (int (length (total_people s)) + n)"
proof -
  from rounds_single [OF assms(1,2), of "[0..n - 1]"] obtain s' where
    f: "fold_r sim_round [0..n - 1] s = Inr s'" and r: "single_ready mf s'"
    and t: "length (total_people s') = length (total_people s) + length [0..n - 1]" by blast
  have len: "int (length [0..n - 1]) = n" using assms(3) by simp
  obtain stats where c: "calculate_stats n s' = Inr stats"
    and nr: "map_of stats ''num_rounds'' = Some n"
    and tp: "map_of stats ''total_people'' = Some (int (length (total_people s')))"
    using calculate_stats_closed [of n s'] by simp
  have "run n s = Inr (stats, s')" by (simp add: run_def f c bind_r_Inr)
  moreover have "int (length (total_people s')) = int (length (total_people s)) + n"
    using t len by simp
  ultimately show ?thesis using r nr tp by auto
qed

text \<open>
  Claim C6 (a second call of \<open>run\<close> on a finished instance is rejected) fails on the code:
  \<open>run\<close> keeps no record of having been called, and "only called once" is a precondition
  in its docstring. On the configuration of the sample tests, \<open>run(1)\<close> returns the
  statistics of one round with one person and nobody completed; a second \<open>run(1)\<close> on the
  same object returns normally, and its statistics show that another round was run on the
  state left by the first: two people in total, one of them completed.
\<close>

theorem second_run_counterexample:
  "map_sum id fst (run 1 example_simulation) =
     Inr [(''num_rounds'', 1), (''total_people'', 1), (''people_completed'', 0),
          (''max_time'', - 1), (''avg_time'', - 1)]
   \<and> run_twice 1 1 example_simulation =
     Inr [(''num_rounds'', 1), (''total_people'', 2), (''people_completed'', 1),
          (''max_time'', 1), (''avg_time'', 1)]"
  by code_simp

text \<open>
  Claim C6, amended. \<open>run\<close> does not check whether the instance has already finished a
  run. With the \<open>SingleArrivals\<close> generator (\<open>max_floor \<ge> 2\<close>) and a waiting table that has
  floor 1, a call \<open>run(n1)\<close> followed by a second call \<open>run(n2)\<close> on the same object both
  return normally: the second call executes \<open>n2\<close> further rounds on the state left by the
  first and reports \<open>num_rounds = n2\<close> and a \<open>total_people\<close> that counts the arrivals of
  both calls.
\<close>

theorem second_run_not_rejected:
  assumes "arrival_generator s = SingleArrivals max_floor" and "2 \<le> max_floor"
    and "distinct (map fst (waiting s))" and "1 \<in> set (map fst (waiting s))"
    and "1 \<le> n1" and "1 \<le> n2"
  shows "\<exists>stats1 s1 stats2 s2.
           run n1 s = Inr (stats1, s1) \<and> run n2 s1 = Inr (stats2, s2)
           \<and> run_twice n1 n2 s = Inr stats2
           \<and> map_of stats2 ''num_rounds'' = Some n2
           \<and> map_of stats2 ''total_people'' = Some (int (length (total_people s)) + n1 + n2)"
proof -
  have r: "single_ready max_floor s" using assms(1,3,4) by (simp add: single_ready_def)
  have mf: "max_floor \<noteq> 1" using assms(2) by simp
  have n1: "0 \<le> n1" and n2: "0 \<le> n2" using assms(5,6) by simp_all
  from run_single [OF r mf n1] obtain stats1 s1 where
    1: "run n1 s = Inr (stats1, s1)" and r1: "single_ready max_floor s1"
    and t1: "map_of stats1 ''total_people'' = Some (int (length (total_people s)) + n1)"
    by blast
  have len1: "int (length (total_people s1)) = int (length (total_people s)) + n1"
  proof -
    from 1 have "calculate_stats n1 s1 = Inr stats1"
      by (auto simp: run_def bind_r_eq_Inr)
    then have "map_of stats1 ''total_people'' = Some (int (length (total_people s1)))"
      using calculate_stats_closed [of n1 s1] by auto
    with t1 show ?thesis by simp
  qed
  from run_single [OF r1 mf n2] obtain stats2 s2 where
    2: "run n2 s1 = Inr (stats2, s2)"
    and nr: "map_of stats2 ''num_rounds'' = Some n2"
    and t2: "map_of stats2 ''total_people'' = Some (int (length (total_people s1)) + n2)"
    by blast
  have "run_twice n1 n2 s = Inr stats2"
    by (simp add: run_twice_def 1 2 bind_r_Inr)
  then show ?thesis using 1 2 nr t2 len1 by auto
qed

theorem second_run_not_rejected_witness:
  "arrival_generator example_simulation = SingleArrivals 6 \<and> (2::int) \<le> 6
   \<and> distinct (map fst (waiting example_simulation))
   \<and> 1 \<in> set (map fst (waiting example_simulation))
   \<and> (1::int) \<le> 3 \<and> (1::int) \<le> 4
   \<and> \<not> isl (run_twice 3 4 example_simulation)
   \<and> map_of (projr (run_twice 3 4 example_simulation)) ''num_rounds'' = Some 4
   \<and> map_of (projr (run_twice 3 4 example_simulation)) ''total_people'' = Some 7"
proof -
  have h1: "arrival_generator example_simulation = SingleArrivals 6"
    by (simp add: example_simulation_def Simulation_def example_config_def)
  have h2: "(2::int) \<le> 6" by simp
  have h3: "distinct (map fst (waiting example_simulation))" by code_simp
  have h4: "1 \<in> set (map fst (waiting example_simulation))" by code_simp
  have h5: "(1::int) \<le> 3" and h6: "(1::int) \<le> 4" by simp_all
  have t: "total_people example_simulation = []"
    by (simp add: example_simulation_def Simulation_def)
  from second_run_not_rejected [OF h1 h2 h3 h4 h5 h6] obtain stats2 where
    "run_twice 3 4 example_simulation = Inr stats2"
    "map_of stats2 ''num_rounds'' = Some 4"
    "map_of stats2 ''total_people''
       = Some (int (length (total_people example_simulation)) + 3 + 4)"
    by blast
  then have "\<not> isl (run_twice 3 4 example_simulation)"
    "map_of (projr (run_twice 3 4 example_simulation)) ''num_rounds'' = Some 4"
    "map_of (projr (run_twice 3 4 example_simulation)) ''total_people'' = Some 7"
    by (simp_all add: t)
  with h1 h2 h3 h4 h5 h6 show ?thesis by blast
qed

section \<open>The Board stage as a whole\<close>

lemma set_update_cases:
  "x \<in> set (AList.update k v al) \<Longrightarrow> x = (k, v) \<or> x \<in> set al"
  by (induction al) (auto split: if_splits)

lemma waiting_after_turn_keys:
  "map fst (waiting_after_turn h w e) = map fst w"
proof (cases "map_of w (current_floor e)")
  case None
  then show ?thesis by (simp add: waiting_after_turn_def)
next
  case (Some people)
  have "current_floor e \<in> set (map fst w)"
    using map_of_SomeD [OF Some] by force
  then show ?thesis using Some by (simp add: waiting_after_turn_def update_keys_present)
qed

lemma waiting_after_turn_lists:
  assumes "(k, l) \<in> set (waiting_after_turn h w e)"
  shows "\<exists>l0. (k, l0) \<in> set w \<and> (\<exists>P. l = filter P l0)"
proof (cases "map_of w (current_floor e)")
  case None
  then have "(k, l) \<in> set w" using assms by (simp add: waiting_after_turn_def)
  moreover have "l = filter (\<lambda>p. True) l" by simp
  ultimately show ?thesis by blast
next
  case (Some people)
  let ?l = "filter (\<lambda>p. p \<notin> set (boarders h (current_floor e) e people)) people"
  from assms Some have "(k, l) = (current_floor e, ?l) \<or> (k, l) \<in> set w"
    by (auto simp: waiting_after_turn_def dest: set_update_cases)
  then show ?thesis
  proof
    assume "(k, l) = (current_floor e, ?l)"
    moreover have "(current_floor e, people) \<in> set w" using Some by (rule map_of_SomeD)
    ultimately show ?thesis by blast
  next
    assume "(k, l) \<in> set w"
    moreover have "l = filter (\<lambda>p. True) l" by simp
    ultimately show ?thesis by blast
  qed
qed

lemma waiting_after_turn_distinct:
  assumes "\<forall>(k, people)\<in>set w. distinct people"
  shows "\<forall>(k, people)\<in>set (waiting_after_turn h w e). distinct people"
proof (clarify)
  fix k l assume "(k, l) \<in> set (waiting_after_turn h w e)"
  from waiting_after_turn_lists [OF this] obtain l0 P where
    "(k, l0) \<in> set w" "l = filter P l0" by blast
  then show "distinct l" using assms by auto
qed

lemma waiting_after_turn_targets:
  assumes "\<forall>(k, people)\<in>set w. \<forall>p\<in>set people. target (h p) \<noteq> k"
  shows "\<forall>(k, people)\<in>set (waiting_after_turn h w e). \<forall>p\<in>set people. target (h p) \<noteq> k"
proof -
  have "target (h p) \<noteq> k" if "(k, l) \<in> set (waiting_after_turn h w e)" and p: "p \<in> set l"
    for k l p
  proof -
    from waiting_after_turn_lists [OF that(1)] obtain l0 P where
      "(k, l0) \<in> set w" "l = filter P l0" by blast
    then have "p \<in> set l0" "(k, l0) \<in> set w" using p by auto
    then show ?thesis using assms by auto
  qed
  then show ?thesis by auto
qed

lemma board_elevator_turn:
  assumes "distinct (map fst w)" and "\<forall>(k, people)\<in>set w. distinct people"
  shows "board_elevator h w e = Inr (elevator_after_turn h w e, waiting_after_turn h w e)"
proof (cases "map_of w (current_floor e)")
  case None
  then show ?thesis
    using board_elevator_closed [OF assms(1), of h e]
    by (simp add: elevator_after_turn_def waiting_after_turn_def)
next
  case (Some people)
  have "(current_floor e, people) \<in> set w" using Some by (rule map_of_SomeD)
  then have "distinct people" using assms(2) by auto
  then have "fold remove1 (boarders h (current_floor e) e people) people
      = filter (\<lambda>p. p \<notin> set (boarders h (current_floor e) e people)) people"
    by (rule fold_remove1_distinct)
  then show ?thesis
    using board_elevator_closed [OF assms(1), of h e] Some
    by (simp add: elevator_after_turn_def waiting_after_turn_def)
qed

lemma waiting_at_turn_0: "waiting_at_turn h es w 0 = w"
  by (simp add: waiting_at_turn_def)

lemma waiting_at_turn_Cons:
  "waiting_at_turn h (e # es) w (Suc j) = waiting_at_turn h es (waiting_after_turn h w e) j"
  by (simp add: waiting_at_turn_def)

lemma waiting_at_turn_Suc:
  "j < length es \<Longrightarrow>
     waiting_at_turn h es w (Suc j) = waiting_after_turn h (waiting_at_turn h es w j) (es ! j)"
  by (simp add: waiting_at_turn_def take_Suc_conv_app_nth)

lemma waiting_at_turn_keys: "map fst (waiting_at_turn h es w j) = map fst w"
proof (induction es arbitrary: w j)
  case Nil
  then show ?case by (simp add: waiting_at_turn_def)
next
  case (Cons e es)
  show ?case
  proof (cases j)
    case 0
    then show ?thesis by (simp add: waiting_at_turn_0)
  next
    case (Suc j')
    then show ?thesis
      by (simp add: waiting_at_turn_Cons Cons.IH waiting_after_turn_keys)
  qed
qed

lemma waiting_at_turn_distinct:
  assumes "\<forall>(k, people)\<in>set w. distinct people"
  shows "\<forall>(k, people)\<in>set (waiting_at_turn h es w j). distinct people"
  using assms
proof (induction es arbitrary: w j)
  case Nil
  then show ?case by (simp add: waiting_at_turn_def)
next
  case (Cons e es)
  show ?case
  proof (cases j)
    case 0
    then show ?thesis using Cons.prems by (simp add: waiting_at_turn_0)
  next
    case (Suc j')
    have "\<forall>(k, people)\<in>set (waiting_after_turn h w e). distinct people"
      using Cons.prems by (rule waiting_after_turn_distinct)
    from Cons.IH [OF this] show ?thesis using Suc by (simp add: waiting_at_turn_Cons)
  qed
qed

lemma waiting_at_turn_targets:
  assumes "\<forall>(k, people)\<in>set w. \<forall>p\<in>set people. target (h p) \<noteq> k"
  shows "\<forall>(k, people)\<in>set (waiting_at_turn h es w j). \<forall>p\<in>set people. target (h p) \<noteq> k"
  using assms
proof (induction es arbitrary: w j)
  case Nil
  then show ?case by (simp add: waiting_at_turn_def)
next
  case (Cons e es)
  show ?case
  proof (cases j)
    case 0
    then show ?thesis using Cons.prems by (simp add: waiting_at_turn_0)
  next
    case (Suc j')
    have "\<forall>(k, people)\<in>set (waiting_after_turn h w e). \<forall>p\<in>set people. target (h p) \<noteq> k"
      using Cons.prems by (rule waiting_after_turn_targets)
    from Cons.IH [OF this] show ?thesis using Suc by (simp add: waiting_at_turn_Cons)
  qed
qed

lemma board_all_turns:
  assumes "distinct (map fst w)" and "\<forall>(k, people)\<in>set w. distinct people"
  shows "\<exists>es'. length es' = length es
           \<and> board_all h es w = Inr (es', waiting_at_turn h es w (length es))
           \<and> (\<forall>j<length es.
                 es' ! j = elevator_after_turn h (waiting_at_turn h es w j) (es ! j))"
  using assms
proof (induction es arbitrary: w)
  case Nil
  then show ?case by (simp add: waiting_at_turn_0)
next
  case (Cons e es)
  let ?w1 = "waiting_after_turn h w e"
  have 1: "board_elevator h w e = Inr (elevator_after_turn h w e, ?w1)"
    using Cons.prems by (rule board_elevator_turn)
  have dk: "distinct (map fst ?w1)" using Cons.prems(1) by (simp add: waiting_after_turn_keys)
  have dl: "\<forall>(k, people)\<in>set ?w1. distinct people"
    using Cons.prems(2) by (rule waiting_after_turn_distinct)
  from Cons.IH [OF dk dl] obtain es1 where
    len: "length es1 = length es"
    and 2: "board_all h es ?w1 = Inr (es1, waiting_at_turn h es ?w1 (length es))"
    and nth: "\<forall>j<length es. es1 ! j = elevator_after_turn h (waiting_at_turn h es ?w1 j) (es ! j)"
    by blast
  let ?es' = "elevator_after_turn h w e # es1"
  have a: "board_all h (e # es) w = Inr (?es', waiting_at_turn h (e # es) w (length (e # es)))"
    by (simp add: 1 2 bind_r_Inr waiting_at_turn_Cons)
  have b: "?es' ! j = elevator_after_turn h (waiting_at_turn h (e # es) w j) ((e # es) ! j)"
    if "j < length (e # es)" for j
  proof (cases j)
    case 0
    then show ?thesis by (simp add: waiting_at_turn_0)
  next
    case (Suc j')
    then have "j' < length es" using that by simp
    then show ?thesis using nth Suc by (simp add: waiting_at_turn_Cons)
  qed
  show ?case
    by (rule exI [of _ ?es']) (use len a b in simp)
qed

lemma handle_boarding_turns:
  assumes "distinct (map fst (waiting s))" and "\<forall>(k, people)\<in>set (waiting s). distinct people"
  shows "\<exists>es'. length es' = length (elevators s)
     \<and> handle_boarding s =
         Inr (s\<lparr>elevators := es',
                waiting := waiting_at_turn (store s) (elevators s) (waiting s)
                             (length (elevators s))\<rparr>)
     \<and> (\<forall>j<length (elevators s).
           es' ! j = elevator_after_turn (store s)
                       (waiting_at_turn (store s) (elevators s) (waiting s) j) (elevators s ! j))"
proof -
  from board_all_turns [OF assms, where h = "store s" and es = "elevators s"] obtain es' where
    1: "length es' = length (elevators s)"
    and 2: "board_all (store s) (elevators s) (waiting s)
          = Inr (es', waiting_at_turn (store s) (elevators s) (waiting s) (length (elevators s)))"
    and 3: "\<forall>j<length (elevators s).
           es' ! j = elevator_after_turn (store s)
                       (waiting_at_turn (store s) (elevators s) (waiting s) j) (elevators s ! j)"
    by blast
  have "handle_boarding s =
         Inr (s\<lparr>elevators := es',
                waiting := waiting_at_turn (store s) (elevators s) (waiting s)
                             (length (elevators s))\<rparr>)"
    by (simp add: handle_boarding_def 2 bind_r_Inr)
  with 1 3 show ?thesis by blast
qed

lemma boarding_stage_steps:
  assumes "distinct (map fst (waiting s))" and "\<forall>(k, people)\<in>set (waiting s). distinct people"
  shows "let h = store s; es = elevators s; W = waiting_at_turn h es (waiting s) in
    \<exists>es'. length es' = length es
      \<and> handle_boarding s = Inr (s\<lparr>elevators := es', waiting := W (length es)\<rparr>)
      \<and> (\<forall>j<length es.
            let e = es ! j; k = current_floor e in
            (map_of (W j) k = None \<longrightarrow> es' ! j = e \<and> W (Suc j) = W j)
            \<and> (\<forall>people. map_of (W j) k = Some people \<longrightarrow>
                 es' ! j = e\<lparr>passengers := passengers e @ boarders h k e people\<rparr>
                 \<and> W (Suc j) =
                     AList.update k (filter (\<lambda>p. p \<notin> set (boarders h k e people)) people) (W j)
                 \<and> subseq (boarders h k e people) people
                 \<and> (\<forall>i<length people.
                       people ! i \<in> set (boarders h k e people) \<longleftrightarrow>
                         int (length (passengers
                               (fst (fold (board_person h k) (take i people) (e, [])))))
                           < capacity e
                         \<and> ((k > target (h (people ! i)) \<and> target_floor e \<le> k)
                            \<or> (k < target (h (people ! i)) \<and> target_floor e \<ge> k)))
                 \<and> (\<forall>p\<in>set (boarders h k e people).
                       k < target (h p) \<longrightarrow> \<not> target_floor e < k)))"
proof -
  let ?h = "store s" and ?es = "elevators s"
  let ?W = "waiting_at_turn ?h ?es (waiting s)"
  from handle_boarding_turns [OF assms] obtain es' where
    1: "length es' = length ?es"
    and 2: "handle_boarding s = Inr (s\<lparr>elevators := es', waiting := ?W (length ?es)\<rparr>)"
    and 3: "\<forall>j<length ?es. es' ! j = elevator_after_turn ?h (?W j) (?es ! j)"
    by blast
  have step: "(map_of (?W j) (current_floor (?es ! j)) = None \<longrightarrow>
                es' ! j = ?es ! j \<and> ?W (Suc j) = ?W j)
            \<and> (\<forall>people. map_of (?W j) (current_floor (?es ! j)) = Some people \<longrightarrow>
                 es' ! j = (?es ! j)\<lparr>passengers := passengers (?es ! j)
                              @ boarders ?h (current_floor (?es ! j)) (?es ! j) people\<rparr>
                 \<and> ?W (Suc j) =
                     AList.update (current_floor (?es ! j))
                       (filter (\<lambda>p. p \<notin> set (boarders ?h (current_floor (?es ! j)) (?es ! j)
                                                  people)) people) (?W j)
                 \<and> subseq (boarders ?h (current_floor (?es ! j)) (?es ! j) people) people
                 \<and> (\<forall>i<length people.
                       people ! i \<in> set (boarders ?h (current_floor (?es ! j)) (?es ! j) people)
                       \<longleftrightarrow>
                         int (length (passengers
                               (fst (fold (board_person ?h (current_floor (?es ! j)))
                                      (take i people) (?es ! j, [])))))
                           < capacity (?es ! j)
                         \<and> ((current_floor (?es ! j) > target (?h (people ! i))
                              \<and> target_floor (?es ! j) \<le> current_floor (?es ! j))
                            \<or> (current_floor (?es ! j) < target (?h (people ! i))
                               \<and> target_floor (?es ! j) \<ge> current_floor (?es ! j))))
                 \<and> (\<forall>p\<in>set (boarders ?h (current_floor (?es ! j)) (?es ! j) people).
                       current_floor (?es ! j) < target (?h p)
                       \<longrightarrow> \<not> target_floor (?es ! j) < current_floor (?es ! j)))"
    if j: "j < length ?es" for j
  proof -
    let ?e = "?es ! j"
    have dk: "distinct (map fst (?W j))" using assms(1) by (simp add: waiting_at_turn_keys)
    have dl: "\<forall>(k, people)\<in>set (?W j). distinct people"
      using assms(2) by (rule waiting_at_turn_distinct)
    have e': "es' ! j = elevator_after_turn ?h (?W j) ?e" using 3 j by blast
    have W': "?W (Suc j) = waiting_after_turn ?h (?W j) ?e"
      using j by (rule waiting_at_turn_Suc)
    have none: "es' ! j = ?e \<and> ?W (Suc j) = ?W j"
      if "map_of (?W j) (current_floor ?e) = None"
      using e' W' that by (simp add: elevator_after_turn_def waiting_after_turn_def)
    have some: "es' ! j = ?e\<lparr>passengers := passengers ?e @ boarders ?h (current_floor ?e) ?e people\<rparr>
        \<and> ?W (Suc j) =
            AList.update (current_floor ?e)
              (filter (\<lambda>p. p \<notin> set (boarders ?h (current_floor ?e) ?e people)) people) (?W j)
        \<and> subseq (boarders ?h (current_floor ?e) ?e people) people
        \<and> (\<forall>i<length people.
               people ! i \<in> set (boarders ?h (current_floor ?e) ?e people)
               \<longleftrightarrow>
                 int (length (passengers
                       (fst (fold (board_person ?h (current_floor ?e)) (take i people) (?e, [])))))
                   < capacity ?e
                 \<and> ((current_floor ?e > target (?h (people ! i))
                      \<and> target_floor ?e \<le> current_floor ?e)
                    \<or> (current_floor ?e < target (?h (people ! i))
                       \<and> target_floor ?e \<ge> current_floor ?e)))
        \<and> (\<forall>p\<in>set (boarders ?h (current_floor ?e) ?e people).
               current_floor ?e < target (?h p) \<longrightarrow> \<not> target_floor ?e < current_floor ?e)"
      if sm: "map_of (?W j) (current_floor ?e) = Some people" for people
    proof -
      have "(current_floor ?e, people) \<in> set (?W j)" using sm by (rule map_of_SomeD)
      then have dp: "distinct people" using dl by auto
      note rule = boarding_rule_elevator [OF dk sm dp, of ?h]
      have a: "es' ! j
          = ?e\<lparr>passengers := passengers ?e @ boarders ?h (current_floor ?e) ?e people\<rparr>"
        using e' sm by (simp add: elevator_after_turn_def)
      have b: "?W (Suc j) =
            AList.update (current_floor ?e)
              (filter (\<lambda>p. p \<notin> set (boarders ?h (current_floor ?e) ?e people)) people) (?W j)"
        using W' sm by (simp add: waiting_after_turn_def)
      from rule a b show ?thesis by blast
    qed
    from none some show ?thesis by blast
  qed
  show ?thesis
    unfolding Let_def
    by (rule exI [of _ es']) (use 1 2 step in blast)
qed

text \<open>
  Claim C2. The Board stage gives the elevators their turns in list order, each on the
  waiting table the turns before it left (\<open>waiting_at_turn\<close>); the table after the last
  turn is the new waiting table. In its turn an elevator \<open>e\<close> reads the waiting list
  \<open>people\<close> of the floor it is at and takes the list \<open>boarders\<close>: the person at position
  \<open>i\<close> boards if and only if, when the scan has considered the \<open>i\<close> people before, the
  elevator has fewer passengers than its capacity and the direction test holds. The
  boarders are removed from the floor's list after the scan, the others stay in order, and
  the other floors are untouched. Nobody who wants to go up boards an elevator whose target
  floor is below the floor.
\<close>

theorem boarding_stage_rule:
  assumes "distinct (map fst (waiting s))" and "\<forall>(k, people)\<in>set (waiting s). distinct people"
  shows "let h = store s; es = elevators s; W = waiting_at_turn h es (waiting s) in
    \<exists>es'. length es' = length es
      \<and> handle_boarding s = Inr (s\<lparr>elevators := es', waiting := W (length es)\<rparr>)
      \<and> (\<forall>j<length es.
            let e = es ! j; k = current_floor e in
            (map_of (W j) k = None \<longrightarrow> es' ! j = e \<and> W (Suc j) = W j)
            \<and> (\<forall>people. map_of (W j) k = Some people \<longrightarrow>
                 es' ! j = e\<lparr>passengers := passengers e @ boarders h k e people\<rparr>
                 \<and> W (Suc j) =
                     AList.update k (filter (\<lambda>p. p \<notin> set (boarders h k e people)) people) (W j)
                 \<and> subseq (boarders h k e people) people
                 \<and> (\<forall>i<length people.
                       people ! i \<in> set (boarders h k e people) \<longleftrightarrow>
                         int (length (passengers
                               (fst (fold (board_person h k) (take i people) (e, [])))))
                           < capacity e
                         \<and> ((k > target (h (people ! i)) \<and> target_floor e \<le> k)
                            \<or> (k < target (h (people ! i)) \<and> target_floor e \<ge> k)))
                 \<and> (\<forall>p\<in>set (boarders h k e people).
                       k < target (h p) \<longrightarrow> \<not> target_floor e < k)))"
  using assms by (rule boarding_stage_steps)

theorem boarding_stage_rule_witness:
  "distinct (map fst (waiting example_board_state))
   \<and> list_all (\<lambda>(k, people). distinct people) (waiting example_board_state)
   \<and> \<not> isl (handle_boarding example_board_state)
   \<and> map passengers (elevators (projr (handle_boarding example_board_state)))
       = [[9, 1], [0, 2]]
   \<and> waiting (projr (handle_boarding example_board_state))
       = waiting_at_turn (store example_board_state) (elevators example_board_state)
           (waiting example_board_state) 2
   \<and> waiting_at_turn (store example_board_state) (elevators example_board_state)
         (waiting example_board_state) 1
       = [(1, []), (2, []), (3, [0, 2]), (4, []), (5, [])]
   \<and> waiting (projr (handle_boarding example_board_state))
       = [(1, []), (2, []), (3, []), (4, []), (5, [])]"
proof -
  let ?s = example_board_state
  have h1: "distinct (map fst (waiting ?s))" by (simp add: example_board_state_def)
  have h2: "\<forall>(k, people)\<in>set (waiting ?s). distinct people"
    by (simp add: example_board_state_def)
  have len: "length (elevators ?s) = 2" by (simp add: example_board_state_def)
  from boarding_stage_rule [OF h1 h2] obtain es' where
    r: "handle_boarding ?s =
          Inr (?s\<lparr>elevators := es',
                  waiting := waiting_at_turn (store ?s) (elevators ?s) (waiting ?s)
                               (length (elevators ?s))\<rparr>)"
    unfolding Let_def by blast
  have a: "\<not> isl (handle_boarding ?s)" by (simp add: r)
  have b: "waiting (projr (handle_boarding ?s))
      = waiting_at_turn (store ?s) (elevators ?s) (waiting ?s) 2"
    by (simp add: r len)
  have c: "map passengers (elevators (projr (handle_boarding ?s))) = [[9, 1], [0, 2]]"
    by code_simp
  have d: "waiting_at_turn (store ?s) (elevators ?s) (waiting ?s) 1
      = [(1, []), (2, []), (3, [0, 2]), (4, []), (5, [])]" by code_simp
  have e: "waiting (projr (handle_boarding ?s)) = [(1, []), (2, []), (3, []), (4, []), (5, [])]"
    by code_simp
  have h2': "list_all (\<lambda>(k, people). distinct people) (waiting ?s)"
    by (simp add: example_board_state_def)
  from h1 h2' a b c d e show ?thesis by blast
qed

lemma move_elevators_passengers:
  assumes "move_elevators s = Inr s'"
  shows "map passengers (elevators s') = map passengers (elevators s)"
proof -
  from update_target_floors_unchanged [of "moving_algorithm s" "elevators s" "waiting s"
      "store s" "num_floors s"]
  obtain es where u: "update_target_floors (moving_algorithm s)
        (elevators s, waiting s, store s) (num_floors s) = Inr (es, waiting s, store s)"
    and p: "map passengers es = map passengers (elevators s)" by blast
  have "elevators s' = map move_elevator es"
    using assms by (auto simp: move_elevators_def u bind_r_Inr)
  moreover have "passengers (move_elevator e) = passengers e" for e
    by (simp add: move_elevator_def)
  ultimately show ?thesis using p by (simp add: comp_def)
qed

lemma filter_not_in_take:
  "distinct xs \<Longrightarrow> filter (\<lambda>p. p \<notin> set (take m xs)) xs = drop m xs"
  using fold_remove1_distinct [of xs "take m xs"] by (simp add: fold_remove1_take)

text \<open>
  Claim C10. In the Board stage, let the elevator at position \<open>j\<close> be idle at floor \<open>f\<close>
  when its turn comes, and let \<open>people\<close> be the waiting list of \<open>f\<close> at that moment. Every
  one of them (their targets differ from \<open>f\<close>) passes the direction test, going up or
  down, so the elevator takes the first people of the list, as many as there are free
  places, and the rest stays. The Board stage works on the state \<open>s\<close> left by the
  arrivals, before \<open>move_elevators\<close> revises any target: whatever target the idle elevator
  gets later in the round, it ends the round carrying these people.
\<close>

theorem idle_elevator_boards_stage:
  assumes "distinct (map fst (waiting s))" and "\<forall>(k, people)\<in>set (waiting s). distinct people"
    and "\<forall>(k, people)\<in>set (waiting s). \<forall>p\<in>set people. target (store s p) \<noteq> k"
    and "j < length (elevators s)"
    and "target_floor (elevators s ! j) = current_floor (elevators s ! j)"
    and "map_of (waiting_at_turn (store s) (elevators s) (waiting s) j)
           (current_floor (elevators s ! j)) = Some people"
  shows "let h = store s; es = elevators s; W = waiting_at_turn h es (waiting s);
             e = es ! j; f = current_floor e;
             room = nat (capacity e - int (length (passengers e)))
         in (\<forall>p\<in>set people.
               (f > target (h p) \<and> target_floor e \<le> f) \<or> (f < target (h p) \<and> target_floor e \<ge> f))
          \<and> (\<exists>s3. handle_boarding s = Inr s3 \<and> length (elevators s3) = length es
                \<and> elevators s3 ! j = e\<lparr>passengers := passengers e @ take room people\<rparr>
                \<and> waiting s3 = W (length es))
          \<and> W (Suc j) = AList.update f (drop room people) (W j)
          \<and> (\<forall>i s0 s1 s'.
                handle_disembarking s0 = Inr s1 \<longrightarrow> generate_arrivals i s1 = Inr s \<longrightarrow>
                sim_round i s0 = Inr s' \<longrightarrow>
                  length (elevators s') = length es
                  \<and> passengers (elevators s' ! j) = passengers e @ take room people)"
proof -
  let ?h = "store s" and ?es = "elevators s"
  let ?W = "waiting_at_turn ?h ?es (waiting s)"
  let ?e = "?es ! j"
  let ?f = "current_floor ?e"
  let ?room = "nat (capacity ?e - int (length (passengers ?e)))"
  have mem: "(?f, people) \<in> set (?W j)" using assms(6) by (rule map_of_SomeD)
  have "\<forall>(k, people)\<in>set (?W j). \<forall>p\<in>set people. target (?h p) \<noteq> k"
    using assms(3) by (rule waiting_at_turn_targets)
  then have tn: "\<forall>p\<in>set people. target (?h p) \<noteq> ?f" using mem by auto
  have "\<forall>(k, people)\<in>set (?W j). distinct people"
    using assms(2) by (rule waiting_at_turn_distinct)
  then have dp: "distinct people" using mem by auto
  have ok: "\<forall>p\<in>set people.
      (?f > target (?h p) \<and> target_floor ?e \<le> ?f) \<or> (?f < target (?h p) \<and> target_floor ?e \<ge> ?f)"
    using tn assms(5) by auto
  then have "filter (direction_ok ?h ?f ?e) people = people"
    by (simp add: direction_ok_def)
  then have b: "boarders ?h ?f ?e people = take ?room people" by (simp add: boarders_def)
  from boarding_stage_steps [OF assms(1,2)] obtain es' where
    1: "length es' = length ?es"
    and 2: "handle_boarding s = Inr (s\<lparr>elevators := es', waiting := ?W (length ?es)\<rparr>)"
    and 3: "es' ! j = ?e\<lparr>passengers := passengers ?e @ boarders ?h ?f ?e people\<rparr>"
    and 4: "?W (Suc j) =
        AList.update ?f (filter (\<lambda>p. p \<notin> set (boarders ?h ?f ?e people)) people) (?W j)"
    unfolding Let_def using assms(4,6) by blast
  let ?s3 = "s\<lparr>elevators := es', waiting := ?W (length ?es)\<rparr>"
  have s3: "handle_boarding s = Inr ?s3 \<and> length (elevators ?s3) = length ?es
      \<and> elevators ?s3 ! j = ?e\<lparr>passengers := passengers ?e @ take ?room people\<rparr>
      \<and> waiting ?s3 = ?W (length ?es)"
    using 1 2 3 b by simp
  have W: "?W (Suc j) = AList.update ?f (drop ?room people) (?W j)"
    using 4 b dp by (simp add: filter_not_in_take)
  have round: "length (elevators s') = length ?es
      \<and> passengers (elevators s' ! j) = passengers ?e @ take ?room people"
    if d: "handle_disembarking s0 = Inr s1" and g: "generate_arrivals i s1 = Inr s"
      and r: "sim_round i s0 = Inr s'" for i s0 s1 s'
  proof -
    from r obtain t1 t2 t3 t4 where
      t1: "handle_disembarking s0 = Inr t1" and t2: "generate_arrivals i t1 = Inr t2"
      and t3: "handle_boarding t2 = Inr t3" and t4: "move_elevators t3 = Inr t4"
      and s': "s' = update_wait_times t4"
      unfolding sim_round_stages by blast
    have "t1 = s1" using d t1 by simp
    then have "t2 = s" using g t2 by simp
    then have "t3 = ?s3" using t3 s3 by simp
    then have p3: "map passengers (elevators t4) = map passengers es'"
      using move_elevators_passengers [OF t4] by simp
    then have l4: "length (elevators t4) = length es'" by (rule map_eq_imp_length_eq)
    have "passengers (elevators t4 ! j) = passengers (es' ! j)"
      using p3 l4 assms(4) 1 by (metis nth_map)
    then show ?thesis using s' l4 1 3 b by (simp add: update_wait_times_def)
  qed
  show ?thesis
    unfolding Let_def using ok s3 W round by blast
qed

theorem idle_elevator_boards_stage_witness:
  "distinct (map fst (waiting example_board_state))
   \<and> list_all (\<lambda>(k, people). distinct people) (waiting example_board_state)
   \<and> list_all (\<lambda>(k, people). list_all (\<lambda>p. target (store example_board_state p) \<noteq> k) people)
        (waiting example_board_state)
   \<and> (1::nat) < length (elevators example_board_state)
   \<and> target_floor (elevators example_board_state ! 1)
       = current_floor (elevators example_board_state ! 1)
   \<and> map_of (waiting_at_turn (store example_board_state) (elevators example_board_state)
               (waiting example_board_state) 1)
        (current_floor (elevators example_board_state ! 1)) = Some [0, 2]
   \<and> map (\<lambda>p. target (store example_board_state p)) [0, 2] = [1, 5]
   \<and> \<not> isl (handle_boarding example_board_state)
   \<and> passengers (elevators (projr (handle_boarding example_board_state)) ! 1) = [0, 2]
   \<and> waiting_at_turn (store example_board_state) (elevators example_board_state)
        (waiting example_board_state) 2
       = [(1, []), (2, []), (3, []), (4, []), (5, [])]"
proof -
  let ?s = example_board_state
  have h1: "distinct (map fst (waiting ?s))" by (simp add: example_board_state_def)
  have h2: "\<forall>(k, people)\<in>set (waiting ?s). distinct people"
    by (simp add: example_board_state_def)
  have h3: "\<forall>(k, people)\<in>set (waiting ?s). \<forall>p\<in>set people. target (store ?s p) \<noteq> k"
    by (simp add: example_board_state_def Person_def)
  have h4: "(1::nat) < length (elevators ?s)" by (simp add: example_board_state_def)
  have h5: "target_floor (elevators ?s ! 1) = current_floor (elevators ?s ! 1)"
    by (simp add: example_board_state_def)
  have h6: "map_of (waiting_at_turn (store ?s) (elevators ?s) (waiting ?s) 1)
              (current_floor (elevators ?s ! 1)) = Some [0, 2]" by code_simp
  from idle_elevator_boards_stage [OF h1 h2 h3 h4 h5 h6] obtain s3 where
    r: "handle_boarding ?s = Inr s3"
    and e: "elevators s3 ! 1 = (elevators ?s ! 1)\<lparr>passengers := passengers (elevators ?s ! 1)
              @ take (nat (capacity (elevators ?s ! 1)
                            - int (length (passengers (elevators ?s ! 1))))) [0, 2]\<rparr>"
    unfolding Let_def by blast
  have a: "\<not> isl (handle_boarding ?s)" by (simp add: r)
  have "passengers (elevators s3 ! 1) = [0, 2]"
    unfolding e by (simp add: example_board_state_def)
  then have b: "passengers (elevators (projr (handle_boarding ?s)) ! 1) = [0, 2]"
    by (simp add: r)
  have c: "waiting_at_turn (store ?s) (elevators ?s) (waiting ?s) 2
      = [(1, []), (2, []), (3, []), (4, []), (5, [])]" by code_simp
  have d: "map (\<lambda>p. target (store ?s p)) [0, 2] = [1, 5]"
    by (simp add: example_board_state_def Person_def)
  have h2': "list_all (\<lambda>(k, people). distinct people) (waiting ?s)"
    by (simp add: example_board_state_def)
  have h3': "list_all (\<lambda>(k, people). list_all (\<lambda>p. target (store ?s p) \<noteq> k) people)
      (waiting ?s)"
    by (simp add: example_board_state_def Person_def)
  from h1 h2' h3' h4 h5 h6 a b c d show ?thesis by blast
qed

end
